theory Spec2Isabelle
  imports Main "HOL-Library.FSet" "HOL-Library.AList" "HOL-Library.List_Lexorder"
    "HOL-Library.Char_ord"
begin

section \<open>The net model of pnml_parser.py\<close>

text \<open>
  The dataclasses \<^verbatim>\<open>Place\<close>, \<^verbatim>\<open>Transition\<close>, \<^verbatim>\<open>Arc\<close> and \<^verbatim>\<open>PetriNet\<close>. The field
  \<^verbatim>\<open>id\<close> clashes with the identity function of HOL and the three classes share field
  names, so every field carries the initial of its class. A Python dictionary keeps its
  keys in insertion order and the code iterates over it, so a dictionary is an association
  list: \<^verbatim>\<open>k in d\<close> is \<open>k \<in> fst ` set d\<close>, \<^verbatim>\<open>d[k]\<close> is \<open>map_of d k\<close> (a missing key
  is a \<^verbatim>\<open>KeyError\<close>) and \<^verbatim>\<open>d[k] = v\<close> is \<open>AList.update k v d\<close>.
\<close>

record Place =
  p_id :: string
  p_name :: "string option"
  p_initial_marking :: int
  p_incoming :: "string list"
  p_outgoing :: "string list"

record Transition =
  t_id :: string
  t_name :: "string option"
  t_incoming :: "string list"
  t_outgoing :: "string list"

record Arc =
  a_id :: string
  a_source :: string
  a_target :: string
  a_weight :: int

record PetriNet =
  net_id :: "string option"
  places :: "(string \<times> Place) list"
  transitions :: "(string \<times> Transition) list"
  arcs :: "(string \<times> Arc) list"

text \<open>A marking is a \<^verbatim>\<open>frozenset\<close> of place ids: a finite set of strings.\<close>

type_synonym marking = "string fset"

datatype py_error = KeyError

section \<open>compute_reachable_markings\<close>

text \<open>
  The two inner loops that fill \<^verbatim>\<open>pre[tid]\<close> and \<^verbatim>\<open>post[tid]\<close>: for every arc id of the
  list, \<^verbatim>\<open>petrinet.arcs[aid]\<close> is looked up and its endpoint (the source for the incoming
  list, the target for the outgoing list) is added when it is a key of
  \<^verbatim>\<open>petrinet.places\<close>.
\<close>

fun collect_places ::
  "PetriNet \<Rightarrow> (Arc \<Rightarrow> string) \<Rightarrow> string list \<Rightarrow> marking \<Rightarrow> py_error + marking" where
  "collect_places petrinet endpoint [] acc = Inr acc"
| "collect_places petrinet endpoint (aid # aids) acc =
     (case map_of (arcs petrinet) aid of
        None \<Rightarrow> Inl KeyError
      | Some arc \<Rightarrow>
          if endpoint arc \<in> fst ` set (places petrinet)
          then collect_places petrinet endpoint aids (finsert (endpoint arc) acc)
          else collect_places petrinet endpoint aids acc)"

text \<open>The loop over \<^verbatim>\<open>petrinet.transitions.items()\<close> that builds the two dictionaries.\<close>

fun build_pre_post ::
  "PetriNet \<Rightarrow> (string \<times> Transition) list \<Rightarrow>
   (string \<times> marking) list \<Rightarrow> (string \<times> marking) list \<Rightarrow>
   py_error + ((string \<times> marking) list \<times> (string \<times> marking) list)" where
  "build_pre_post petrinet [] pre post = Inr (pre, post)"
| "build_pre_post petrinet ((tid, t) # rest) pre post =
     (case collect_places petrinet a_source (t_incoming t) {||} of
        Inl e \<Rightarrow> Inl e
      | Inr pre_tid \<Rightarrow>
          (case collect_places petrinet a_target (t_outgoing t) {||} of
             Inl e \<Rightarrow> Inl e
           | Inr post_tid \<Rightarrow>
               build_pre_post petrinet rest
                 (AList.update tid pre_tid pre) (AList.update tid post_tid post)))"

text \<open>
  The \<^verbatim>\<open>for tid in sorted(...)\<close> loop at one popped marking \<open>M\<close>: \<open>visited\<close> already
  holds \<open>M\<close>, and the container is returned with the successors appended.
\<close>

fun fire_enabled ::
  "(string \<times> marking) list \<Rightarrow> (string \<times> marking) list \<Rightarrow> marking \<Rightarrow> marking set \<Rightarrow>
   string list \<Rightarrow> marking list \<Rightarrow> py_error + marking list" where
  "fire_enabled pre post M visited [] container = Inr container"
| "fire_enabled pre post M visited (tid # tids) container =
     (case map_of pre tid of
        None \<Rightarrow> Inl KeyError
      | Some pre_tid \<Rightarrow>
          if (\<forall>p \<in> fset pre_tid. p |\<in>| M)
          then (case map_of post tid of
                  None \<Rightarrow> Inl KeyError
                | Some post_tid \<Rightarrow>
                    let new_marking = (M |-| pre_tid) |\<union>| post_tid
                    in if new_marking \<notin> visited
                       then fire_enabled pre post M visited tids (container @ [new_marking])
                       else fire_enabled pre post M visited tids container)
          else fire_enabled pre post M visited tids container)"

text \<open>
  Every place id the exploration can meet from a container: the places of the queued
  markings and of the postsets. It only serves the termination proof.
\<close>

definition universe :: "(string \<times> marking) list \<Rightarrow> marking list \<Rightarrow> string set" where
  "universe post container = (\<Union>M \<in> set container. fset M) \<union> (\<Union>M \<in> snd ` set post. fset M)"

lemma finite_universe: "finite (universe post container)"
  by (simp add: universe_def)

lemma fire_enabled_universe:
  "fire_enabled pre post M visited tids container = Inr container' \<Longrightarrow>
   universe post container' \<subseteq> universe post container \<union> fset M"
proof (induction tids arbitrary: container)
  case Nil
  then show ?case by auto
next
  case (Cons tid tids)
  show ?case
  proof (cases "map_of pre tid")
    case None
    with Cons.prems show ?thesis by simp
  next
    case (Some pre_tid)
    show ?thesis
    proof (cases "\<forall>p \<in> fset pre_tid. p |\<in>| M")
      case False
      with Some Cons.prems Cons.IH show ?thesis by simp
    next
      case True
      show ?thesis
      proof (cases "map_of post tid")
        case None
        with Some True Cons.prems show ?thesis by simp
      next
        case po: (Some post_tid)
        let ?nm = "(M |-| pre_tid) |\<union>| post_tid"
        have in_post: "post_tid \<in> snd ` set post"
          using po by (force dest: map_of_SomeD)
        show ?thesis
        proof (cases "?nm \<in> visited")
          case True
          with Some \<open>\<forall>p \<in> fset pre_tid. p |\<in>| M\<close> po Cons.prems Cons.IH show ?thesis
            by (simp add: Let_def)
        next
          case False
          with Some \<open>\<forall>p \<in> fset pre_tid. p |\<in>| M\<close> po Cons.prems
          have "fire_enabled pre post M visited tids (container @ [?nm]) = Inr container'"
            by (simp add: Let_def)
          from Cons.IH [OF this]
          have "universe post container' \<subseteq> universe post (container @ [?nm]) \<union> fset M" .
          moreover have "universe post (container @ [?nm]) \<subseteq> universe post container \<union> fset M"
            using in_post by (auto simp: universe_def)
          ultimately show ?thesis by blast
        qed
      qed
    qed
  qed
qed

lemma universe_popped:
  "container \<noteq> [] \<Longrightarrow>
   universe post (if dfs then butlast container else tl container) \<subseteq> universe post container"
  by (auto simp: universe_def dest: in_set_butlastD list.set_sel(2))

lemma universe_top:
  "container \<noteq> [] \<Longrightarrow> fset (if dfs then last container else hd container) \<subseteq> universe post container"
  by (auto simp: universe_def)

text \<open>
  The \<^verbatim>\<open>while container:\<close> loop. Depth-first mode pops the last element of the list,
  breadth-first mode the first one.
\<close>

function explore ::
  "(string \<times> marking) list \<Rightarrow> (string \<times> marking) list \<Rightarrow> string list \<Rightarrow> bool \<Rightarrow>
   marking set \<Rightarrow> marking list \<Rightarrow> marking list \<Rightarrow> py_error + marking list" where
  "explore pre post tids dfs visited container reachable_markings =
     (if container = [] then Inr reachable_markings
      else
        let M = (if dfs then last container else hd container);
            popped = (if dfs then butlast container else tl container)
        in if M \<notin> visited
           then (case fire_enabled pre post M (insert M visited) tids popped of
                   Inl e \<Rightarrow> Inl e
                 | Inr container' \<Rightarrow>
                     explore pre post tids dfs (insert M visited) container'
                       (reachable_markings @ [M]))
           else explore pre post tids dfs visited popped reachable_markings)"
  by pat_completeness auto

termination explore
proof (relation "inv_image (less_than <*lex*> less_than)
    (\<lambda>(pre, post, tids, dfs, visited, container, reachable_markings).
       (card (Pow (universe post container) - fset ` visited), length container))", goal_cases)
  case 1
  show ?case by (intro wf_inv_image wf_lex_prod wf_less_than)
next
  case (2 pre post tids dfs visited container reachable_markings M popped container')
  let ?U = "universe post container"
  have M: "fset M \<subseteq> ?U" using 2(1,2) universe_top [of container dfs post] by simp
  have "universe post container' \<subseteq> universe post popped \<union> fset M"
    using 2(5) fire_enabled_universe by (metis)
  moreover have "universe post popped \<subseteq> ?U"
    using 2(1,3) universe_popped [of container post dfs] by simp
  ultimately have sub: "universe post container' \<subseteq> ?U" using M by blast
  have notin: "fset M \<notin> fset ` visited" using 2(4) by (auto simp: fset_inject)
  have "Pow (universe post container') - fset ` insert M visited \<subset> Pow ?U - fset ` visited"
    using sub M notin by auto
  then have "card (Pow (universe post container') - fset ` insert M visited) < card (Pow ?U - fset ` visited)"
    by (intro psubset_card_mono) (simp_all add: finite_universe)
  then show ?case by simp
next
  case (3 pre post tids dfs visited container reachable_markings M popped)
  have "universe post popped \<subseteq> universe post container"
    using 3(1,3) universe_popped [of container post dfs] by simp
  then have "Pow (universe post popped) - fset ` visited \<subseteq> Pow (universe post container) - fset ` visited"
    by auto
  then have "card (Pow (universe post popped) - fset ` visited) \<le> card (Pow (universe post container) - fset ` visited)"
    by (intro card_mono) (simp_all add: finite_universe)
  moreover have "length popped < length container" using 3(1,3) by (auto)
  ultimately show ?case by auto
qed

text \<open>
  The function itself: the two dictionaries, the initial marking \<^verbatim>\<open>M0\<close> of the places
  with a positive \<^verbatim>\<open>initial_marking\<close>, and the loop started on \<^verbatim>\<open>[M0]\<close> with the
  transition ids sorted.
\<close>

definition initial_marking_of :: "PetriNet \<Rightarrow> marking" where
  "initial_marking_of petrinet =
     fset_of_list (map fst (filter (\<lambda>(p, pl). p_initial_marking pl > 0) (places petrinet)))"

definition compute_reachable_markings :: "PetriNet \<Rightarrow> bool \<Rightarrow> py_error + marking list" where
  "compute_reachable_markings petrinet dfs =
     (case build_pre_post petrinet (transitions petrinet) [] [] of
        Inl e \<Rightarrow> Inl e
      | Inr (pre, post) \<Rightarrow>
          explore pre post (sort (map fst (transitions petrinet))) dfs {}
            [initial_marking_of petrinet] [])"

subsection \<open>The firing rule in the words of the specification\<close>

text \<open>
  \<open>isEnabled\<close> and \<open>fire\<close> are written from the specification, over the preset and the
  postset of one transition; \<open>lookup_set\<close> reads them from a dictionary of the code.
\<close>

definition isEnabled :: "marking \<Rightarrow> marking \<Rightarrow> bool" where
  "isEnabled M preset_t = (preset_t |\<subseteq>| M)"

definition fire :: "marking \<Rightarrow> marking \<Rightarrow> marking \<Rightarrow> marking" where
  "fire M preset_t postset_t = (M |-| preset_t) |\<union>| postset_t"

definition lookup_set :: "(string \<times> marking) list \<Rightarrow> string \<Rightarrow> marking" where
  "lookup_set d tid = (case map_of d tid of Some s \<Rightarrow> s | None \<Rightarrow> {||})"

text \<open>
  The successors of \<open>M\<close> in the order of the transition list: the enabled transitions,
  fired.
\<close>

definition successors ::
  "(string \<times> marking) list \<Rightarrow> (string \<times> marking) list \<Rightarrow> marking \<Rightarrow> string list \<Rightarrow> marking list" where
  "successors pre post M tids =
     map (\<lambda>tid. fire M (lookup_set pre tid) (lookup_set post tid))
       (filter (\<lambda>tid. isEnabled M (lookup_set pre tid)) tids)"

lemma all_in_iff_isEnabled: "(\<forall>p \<in> fset pre_tid. p |\<in>| M) = isEnabled M pre_tid"
  by (auto simp: isEnabled_def)

lemma fire_enabled_InrD:
  "fire_enabled pre post M visited tids container = Inr container' \<Longrightarrow>
   container' = container @ filter (\<lambda>N. N \<notin> visited) (successors pre post M tids)"
proof (induction tids arbitrary: container)
  case Nil
  then show ?case by (simp add: successors_def)
next
  case (Cons tid tids)
  from Cons.prems show ?case
    by (auto simp: successors_def all_in_iff_isEnabled lookup_set_def fire_def Let_def
        split: option.split_asm if_split_asm dest!: Cons.IH)
qed

lemma fire_enabled_total:
  "set tids \<subseteq> fst ` set pre \<Longrightarrow> set tids \<subseteq> fst ` set post \<Longrightarrow>
   \<exists>container'. fire_enabled pre post M visited tids container = Inr container'"
proof (induction tids arbitrary: container)
  case Nil
  then show ?case by simp
next
  case (Cons tid tids)
  from Cons.prems obtain a b where "map_of pre tid = Some a" "map_of post tid = Some b"
    by (metis list.set_intros(1) subsetD weak_map_of_SomeI map_of_eq_None_iff not_Some_eq)
  with Cons show ?case by (simp add: Let_def)
qed

lemma explore_empty: "explore pre post tids dfs visited [] r = Inr r"
  by simp

lemma explore_step_visited:
  "container \<noteq> [] \<Longrightarrow> (if dfs then last container else hd container) \<in> visited \<Longrightarrow>
   explore pre post tids dfs visited container r =
   explore pre post tids dfs visited (if dfs then butlast container else tl container) r"
  by (subst explore.simps) (simp add: Let_def)

lemma explore_step_new:
  "container \<noteq> [] \<Longrightarrow> M = (if dfs then last container else hd container) \<Longrightarrow> M \<notin> visited \<Longrightarrow>
   explore pre post tids dfs visited container r =
   (case fire_enabled pre post M (insert M visited) tids
           (if dfs then butlast container else tl container) of
      Inl e \<Rightarrow> Inl e
    | Inr container' \<Rightarrow> explore pre post tids dfs (insert M visited) container' (r @ [M]))"
  by (subst explore.simps) (auto simp: Let_def)

lemma explore_invariant:
  assumes res: "explore pre post tids dfs visited container r = Inr ms"
    and init: "I visited container r"
    and old: "\<And>visited container r. I visited container r \<Longrightarrow> container \<noteq> [] \<Longrightarrow>
        (if dfs then last container else hd container) \<in> visited \<Longrightarrow>
        I visited (if dfs then butlast container else tl container) r"
    and new: "\<And>visited container r M. I visited container r \<Longrightarrow> container \<noteq> [] \<Longrightarrow>
        M = (if dfs then last container else hd container) \<Longrightarrow> M \<notin> visited \<Longrightarrow>
        I (insert M visited)
          ((if dfs then butlast container else tl container) @
             filter (\<lambda>N. N \<notin> insert M visited) (successors pre post M tids))
          (r @ [M])"
  shows "\<exists>visited'. I visited' [] ms"
  using res init old new
proof (induction pre post tids dfs visited container r rule: explore.induct)
  case (1 pre post tids dfs visited container r)
  note old' = "1.prems"(3) and new' = "1.prems"(4)
  show ?case
  proof (cases "container = []")
    case True
    with "1.prems"(1,2) show ?thesis by auto
  next
    case ne: False
    let ?M = "if dfs then last container else hd container"
    let ?popped = "if dfs then butlast container else tl container"
    show ?thesis
    proof (cases "?M \<in> visited")
      case True
      have ex: "explore pre post tids dfs visited ?popped r = Inr ms"
        using "1.prems"(1) explore_step_visited [OF ne True] by simp
      have "I visited ?popped r" using "1.prems"(2) ne True by (rule old')
      with ex show ?thesis using "1.IH"(2) [OF ne refl refl _ _ _ old' new'] True by blast
    next
      case False
      from "1.prems"(1) explore_step_new [OF ne refl False]
      obtain container' where
        fe: "fire_enabled pre post ?M (insert ?M visited) tids ?popped = Inr container'" and
        ex: "explore pre post tids dfs (insert ?M visited) container' (r @ [?M]) = Inr ms"
        by (auto split: sum.splits)
      have c': "container' = ?popped @ filter (\<lambda>N. N \<notin> insert ?M visited) (successors pre post ?M tids)"
        using fe by (rule fire_enabled_InrD)
      have "I (insert ?M visited) container' (r @ [?M])"
        unfolding c' using "1.prems"(2) ne refl False by (rule new')
      then show ?thesis using "1.IH"(1) [OF ne refl refl False fe ex _ old' new'] by blast
    qed
  qed
qed

lemma collect_places_InrD:
  "collect_places petrinet endpoint aids acc = Inr acc' \<Longrightarrow>
   fset acc' = fset acc \<union>
     {endpoint arc | aid arc. aid \<in> set aids \<and> map_of (arcs petrinet) aid = Some arc \<and>
        endpoint arc \<in> fst ` set (places petrinet)}"
proof (induction aids arbitrary: acc)
  case Nil
  then show ?case by simp
next
  case (Cons aid aids)
  from Cons.prems obtain arc where arc: "map_of (arcs petrinet) aid = Some arc"
    by (auto split: option.split_asm)
  show ?case
  proof (cases "endpoint arc \<in> fst ` set (places petrinet)")
    case True
    with Cons.prems arc
    have "collect_places petrinet endpoint aids (finsert (endpoint arc) acc) = Inr acc'"
      by simp
    from Cons.IH [OF this] arc True show ?thesis by auto
  next
    case False
    with Cons.prems arc have "collect_places petrinet endpoint aids acc = Inr acc'"
      by simp
    from Cons.IH [OF this] arc False show ?thesis by (auto simp: image_iff)
  qed
qed

lemma collect_places_total:
  "set aids \<subseteq> fst ` set (arcs petrinet) \<Longrightarrow>
   \<exists>acc'. collect_places petrinet endpoint aids acc = Inr acc'"
proof (induction aids arbitrary: acc)
  case Nil
  then show ?case by simp
next
  case (Cons aid aids)
  from Cons.prems obtain arc where "map_of (arcs petrinet) aid = Some arc"
    by (metis list.set_intros(1) subsetD map_of_eq_None_iff not_Some_eq)
  with Cons show ?case by simp
qed

lemma build_pre_post_keys:
  "build_pre_post petrinet trs pre post = Inr (pre', post') \<Longrightarrow>
   fst ` set pre' = fst ` set pre \<union> fst ` set trs \<and>
   fst ` set post' = fst ` set post \<union> fst ` set trs"
proof (induction trs arbitrary: pre post)
  case Nil
  then show ?case by simp
next
  case (Cons tr trs)
  obtain tid t where tr: "tr = (tid, t)" by (cases tr)
  from Cons.prems tr obtain a b where
    "build_pre_post petrinet trs (AList.update tid a pre) (AList.update tid b post) = Inr (pre', post')"
    by (auto split: sum.split_asm)
  from Cons.IH [OF this] tr show ?case by (auto simp: dom_update)
qed

lemma build_pre_post_places:
  "build_pre_post petrinet trs pre post = Inr (pre', post') \<Longrightarrow>
   \<forall>tid s. map_of post tid = Some s \<longrightarrow> fset s \<subseteq> fst ` set (places petrinet) \<Longrightarrow>
   \<forall>tid s. map_of post' tid = Some s \<longrightarrow> fset s \<subseteq> fst ` set (places petrinet)"
proof (induction trs arbitrary: pre post)
  case Nil
  then show ?case by simp
next
  case (Cons tr trs)
  obtain tid t where tr: "tr = (tid, t)" by (cases tr)
  from Cons.prems(1) tr obtain a b where
    b: "collect_places petrinet a_target (t_outgoing t) {||} = Inr b" and
    rest: "build_pre_post petrinet trs (AList.update tid a pre) (AList.update tid b post) = Inr (pre', post')"
    by (auto split: sum.split_asm)
  have "fset b \<subseteq> fst ` set (places petrinet)"
    using collect_places_InrD [OF b] by auto
  with Cons.prems(2)
  have "\<forall>tid' s. map_of (AList.update tid b post) tid' = Some s \<longrightarrow> fset s \<subseteq> fst ` set (places petrinet)"
    by (auto simp: update_conv')
  from Cons.IH [OF rest this] show ?case .
qed

lemma lookup_set_places:
  "\<forall>tid s. map_of post tid = Some s \<longrightarrow> fset s \<subseteq> P \<Longrightarrow> fset (lookup_set post tid) \<subseteq> P"
  by (auto simp: lookup_set_def split: option.splits)

lemma successors_places:
  assumes "\<forall>tid s. map_of post tid = Some s \<longrightarrow> fset s \<subseteq> P" "fset M \<subseteq> P"
    "N \<in> set (successors pre post M tids)"
  shows "fset N \<subseteq> P"
proof -
  from assms(3) obtain tid where "N = fire M (lookup_set pre tid) (lookup_set post tid)"
    by (auto simp: successors_def)
  with lookup_set_places [OF assms(1), of tid] assms(2) show ?thesis
    by (auto simp: fire_def)
qed

lemma top_in_set:
  "container \<noteq> [] \<Longrightarrow> (if dfs then last container else hd container) \<in> set container"
  by simp

lemma popped_subset:
  "set (if dfs then butlast container else tl container) \<subseteq> set container"
  by (cases container) (auto dest: in_set_butlastD)

lemma explore_places:
  assumes res: "explore pre post tids dfs visited container r = Inr ms"
    and post: "\<forall>tid s. map_of post tid = Some s \<longrightarrow> fset s \<subseteq> P"
    and init: "\<forall>M \<in> set container \<union> set r. fset M \<subseteq> P"
  shows "\<forall>M \<in> set ms. fset M \<subseteq> P"
proof -
  let ?I = "\<lambda>(visited :: marking set) container r. \<forall>M \<in> set container \<union> set r. fset M \<subseteq> P"
  have "\<exists>visited'. ?I visited' [] ms"
  proof (rule explore_invariant [OF res, where I = ?I])
    show "?I visited container r" using init .
  next
    fix visited container r
    assume "?I visited container r" "container \<noteq> []"
    then show "?I visited (if dfs then butlast container else tl container) r"
      using popped_subset [of dfs container] by blast
  next
    fix visited container r M
    assume I: "?I visited container r" and ne: "container \<noteq> []"
      and M: "M = (if dfs then last container else hd container)"
    have MP: "fset M \<subseteq> P" using I top_in_set [OF ne, of dfs] M by blast
    show "?I (insert M visited)
          ((if dfs then butlast container else tl container) @
             filter (\<lambda>N. N \<notin> insert M visited) (successors pre post M tids))
          (r @ [M])"
    proof (intro ballI)
      fix N
      assume "N \<in> set ((if dfs then butlast container else tl container) @
             filter (\<lambda>N. N \<notin> insert M visited) (successors pre post M tids)) \<union> set (r @ [M])"
      then consider "N \<in> set (if dfs then butlast container else tl container)"
        | "N \<in> set (successors pre post M tids)" | "N \<in> set r" | "N = M"
        by auto
      then show "fset N \<subseteq> P"
      proof cases
        case 1
        then show ?thesis using I popped_subset [of dfs container] by blast
      next
        case 2
        then show ?thesis by (rule successors_places [OF post MP])
      next
        case 3
        then show ?thesis using I by blast
      next
        case 4
        then show ?thesis using MP by simp
      qed
    qed
  qed
  then show ?thesis by simp
qed

lemma explore_distinct:
  assumes res: "explore pre post tids dfs visited container r = Inr ms"
    and init: "distinct r" "set r \<subseteq> visited"
  shows "distinct ms"
proof -
  let ?I = "\<lambda>(visited :: marking set) (container :: marking list) r. distinct r \<and> set r \<subseteq> visited"
  have "\<exists>visited'. ?I visited' [] ms"
    by (rule explore_invariant [OF res, where I = ?I]) (use init in auto)
  then show ?thesis by simp
qed

lemma explore_total:
  "set tids \<subseteq> fst ` set pre \<Longrightarrow> set tids \<subseteq> fst ` set post \<Longrightarrow>
   \<exists>ms. explore pre post tids dfs visited container r = Inr ms"
proof (induction pre post tids dfs visited container r rule: explore.induct)
  case (1 pre post tids dfs visited container r)
  show ?case
  proof (cases "container = []")
    case True
    then show ?thesis by simp
  next
    case ne: False
    let ?M = "if dfs then last container else hd container"
    let ?popped = "if dfs then butlast container else tl container"
    show ?thesis
    proof (cases "?M \<in> visited")
      case True
      show ?thesis
        using "1.IH"(2) [OF ne refl refl _ "1.prems"] True explore_step_visited [OF ne True]
        by simp
    next
      case False
      from fire_enabled_total [OF "1.prems"] obtain container' where
        fe: "fire_enabled pre post ?M (insert ?M visited) tids ?popped = Inr container'"
        by blast
      show ?thesis
        using "1.IH"(1) [OF ne refl refl False fe "1.prems"] explore_step_new [OF ne refl False] fe
        by simp
    qed
  qed
qed

definition arcs_resolve :: "PetriNet \<Rightarrow> bool" where
  "arcs_resolve petrinet =
     (\<forall>(tid, t) \<in> set (transitions petrinet).
        set (t_incoming t) \<subseteq> fst ` set (arcs petrinet) \<and>
        set (t_outgoing t) \<subseteq> fst ` set (arcs petrinet))"

lemma build_pre_post_total:
  "\<forall>(tid, t) \<in> set trs. set (t_incoming t) \<subseteq> fst ` set (arcs petrinet) \<and>
        set (t_outgoing t) \<subseteq> fst ` set (arcs petrinet) \<Longrightarrow>
   \<exists>pre' post'. build_pre_post petrinet trs pre post = Inr (pre', post')"
proof (induction trs arbitrary: pre post)
  case Nil
  then show ?case by simp
next
  case (Cons tr trs)
  obtain tid t where tr: "tr = (tid, t)" by (cases tr)
  from Cons.prems tr have
    "set (t_incoming t) \<subseteq> fst ` set (arcs petrinet)" "set (t_outgoing t) \<subseteq> fst ` set (arcs petrinet)"
    by auto
  then obtain a b where
    "collect_places petrinet a_source (t_incoming t) {||} = Inr a"
    "collect_places petrinet a_target (t_outgoing t) {||} = Inr b"
    using collect_places_total by metis
  moreover from Cons.prems have "\<forall>(tid, t) \<in> set trs. set (t_incoming t) \<subseteq> fst ` set (arcs petrinet) \<and>
        set (t_outgoing t) \<subseteq> fst ` set (arcs petrinet)" by simp
  from Cons.IH [OF this] obtain pre' post' where
    "build_pre_post petrinet trs (AList.update tid a pre) (AList.update tid b post) = Inr (pre', post')"
    by blast
  ultimately show ?case using tr by simp
qed

lemma collect_places_InlD:
  "collect_places petrinet endpoint aids acc = Inl e \<Longrightarrow> \<not> set aids \<subseteq> fst ` set (arcs petrinet)"
  using collect_places_total [of aids petrinet endpoint acc] by auto

lemma build_pre_post_InlD:
  "build_pre_post petrinet trs pre post = Inl e \<Longrightarrow>
   \<not> (\<forall>(tid, t) \<in> set trs. set (t_incoming t) \<subseteq> fst ` set (arcs petrinet) \<and>
        set (t_outgoing t) \<subseteq> fst ` set (arcs petrinet))"
proof
  assume "\<forall>(tid, t) \<in> set trs. set (t_incoming t) \<subseteq> fst ` set (arcs petrinet) \<and>
        set (t_outgoing t) \<subseteq> fst ` set (arcs petrinet)"
  from build_pre_post_total [OF this, of pre post] obtain pre' post' where
    "build_pre_post petrinet trs pre post = Inr (pre', post')" by blast
  moreover assume "build_pre_post petrinet trs pre post = Inl e"
  ultimately show False by simp
qed

lemma compute_cases:
  obtains (KeyError) e where "build_pre_post petrinet (transitions petrinet) [] [] = Inl e"
      "compute_reachable_markings petrinet dfs = Inl e" "\<not> arcs_resolve petrinet"
    | (Result) pre post ms where
      "build_pre_post petrinet (transitions petrinet) [] [] = Inr (pre, post)"
      "explore pre post (sort (map fst (transitions petrinet))) dfs {}
         [initial_marking_of petrinet] [] = Inr ms"
      "compute_reachable_markings petrinet dfs = Inr ms"
proof (cases "build_pre_post petrinet (transitions petrinet) [] []")
  case (Inl e)
  then show ?thesis
    using KeyError [of e] build_pre_post_InlD [OF Inl]
    by (simp add: compute_reachable_markings_def arcs_resolve_def)
next
  case (Inr pp)
  obtain pre post where pp: "pp = (pre, post)" by (cases pp)
  from build_pre_post_keys [OF Inr [unfolded pp]]
  have "set (sort (map fst (transitions petrinet))) \<subseteq> fst ` set pre"
    "set (sort (map fst (transitions petrinet))) \<subseteq> fst ` set post" by auto
  from explore_total [OF this] obtain ms where
    "explore pre post (sort (map fst (transitions petrinet))) dfs {}
         [initial_marking_of petrinet] [] = Inr ms" by blast
  then show ?thesis using Result [of pre post ms] Inr pp
    by (simp add: compute_reachable_markings_def)
qed

lemma initial_marking_of_places:
  "fset (initial_marking_of petrinet) \<subseteq> fst ` set (places petrinet)"
  by (auto simp: initial_marking_of_def fset_of_list.rep_eq)

lemma compute_places:
  assumes "compute_reachable_markings petrinet dfs = Inr ms"
  shows "\<forall>M \<in> set ms. fset M \<subseteq> fst ` set (places petrinet)"
proof (cases rule: compute_cases [where petrinet = petrinet and dfs = dfs])
  case (KeyError e)
  with assms show ?thesis by simp
next
  case (Result pre post ms')
  with assms have ms: "ms' = ms" by simp
  have "\<forall>tid s. map_of post tid = Some s \<longrightarrow> fset s \<subseteq> fst ` set (places petrinet)"
    using build_pre_post_places [OF Result(1)] by simp
  from explore_places [OF Result(2) this] initial_marking_of_places [of petrinet] ms
  show ?thesis by simp
qed

lemma compute_distinct:
  assumes "compute_reachable_markings petrinet dfs = Inr ms"
  shows "distinct ms"
proof (cases rule: compute_cases [where petrinet = petrinet and dfs = dfs])
  case (KeyError e)
  with assms show ?thesis by simp
next
  case (Result pre post ms')
  with assms have ms: "ms' = ms" by simp
  from explore_distinct [OF Result(2)] ms show ?thesis by simp
qed

lemma card_markings_within:
  assumes "finite P"
  shows "card {M :: marking. fset M \<subseteq> P} = 2 ^ card P"
proof -
  have "fset ` {M :: marking. fset M \<subseteq> P} = Pow P"
  proof (intro equalityI subsetI)
    fix A assume "A \<in> Pow P"
    then have "finite A" using assms by (auto intro: finite_subset)
    then have "fset (Abs_fset A) = A" by (simp add: Abs_fset_inverse)
    with \<open>A \<in> Pow P\<close> show "A \<in> fset ` {M :: marking. fset M \<subseteq> P}"
      by (metis (mono_tags, lifting) PowD image_eqI mem_Collect_eq)
  qed auto
  moreover have "card (fset ` {M :: marking. fset M \<subseteq> P}) = card {M :: marking. fset M \<subseteq> P}"
    by (intro card_image) (auto simp: inj_on_def fset_inject)
  ultimately show ?thesis by (simp add: card_Pow assms)
qed

lemma compute_bound:
  assumes "compute_reachable_markings petrinet dfs = Inr ms"
  shows "length ms \<le> 2 ^ card (fst ` set (places petrinet))"
proof -
  let ?P = "fst ` set (places petrinet)"
  have fin: "finite {M :: marking. fset M \<subseteq> ?P}"
  proof (rule ccontr)
    assume "\<not> ?thesis"
    then have "card {M :: marking. fset M \<subseteq> ?P} = 0" by simp
    then show False using card_markings_within [of ?P] by simp
  qed
  have "length ms = card (set ms)"
    using compute_distinct [OF assms] by (simp add: distinct_card)
  also have "\<dots> \<le> card {M :: marking. fset M \<subseteq> ?P}"
    using compute_places [OF assms] fin by (intro card_mono) auto
  also have "\<dots> = 2 ^ card ?P" by (rule card_markings_within) simp
  finally show ?thesis .
qed

inductive_set reach ::
  "(string \<times> marking) list \<Rightarrow> (string \<times> marking) list \<Rightarrow> string list \<Rightarrow> marking \<Rightarrow> marking set"
  for pre post tids M0 where
    initial: "M0 \<in> reach pre post tids M0"
  | firing: "M \<in> reach pre post tids M0 \<Longrightarrow> tid \<in> set tids \<Longrightarrow>
       isEnabled M (lookup_set pre tid) \<Longrightarrow>
       fire M (lookup_set pre tid) (lookup_set post tid) \<in> reach pre post tids M0"

lemma successors_reach:
  "M \<in> reach pre post tids M0 \<Longrightarrow> N \<in> set (successors pre post M tids) \<Longrightarrow>
   N \<in> reach pre post tids M0"
  by (auto simp: successors_def intro: reach.firing)

lemma set_container_pop:
  "container \<noteq> [] \<Longrightarrow>
   set container = insert (if dfs then last container else hd container)
     (set (if dfs then butlast container else tl container))"
proof (cases dfs)
  case True
  assume "container \<noteq> []"
  then have "container = butlast container @ [last container]" by simp
  then have "set container = set (butlast container @ [last container])" by simp
  with True show ?thesis by simp
next
  case False
  assume "container \<noteq> []"
  with False show ?thesis by (cases container) auto
qed

lemma explore_reach:
  assumes res: "explore pre post tids dfs {} [M0] [] = Inr ms"
  shows "set ms = reach pre post tids M0"
proof -
  let ?R = "reach pre post tids M0"
  let ?I = "\<lambda>visited container r. set r = visited \<and> M0 \<in> visited \<union> set container \<and>
      visited \<union> set container \<subseteq> ?R \<and>
      (\<forall>M \<in> visited. set (successors pre post M tids) \<subseteq> visited \<union> set container)"
  have "\<exists>visited'. ?I visited' [] ms"
  proof (rule explore_invariant [OF res, where I = ?I])
    show "?I {} [M0] []" by (simp add: reach.initial)
  next
    fix visited container r
    assume I: "?I visited container r" and ne: "container \<noteq> []"
      and top: "(if dfs then last container else hd container) \<in> visited"
    let ?popped = "if dfs then butlast container else tl container"
    have "visited \<union> set container = visited \<union> set ?popped"
      using set_container_pop [OF ne, of dfs] top by auto
    with I show "?I visited ?popped r" by simp
  next
    fix visited container r M
    assume I: "?I visited container r" and ne: "container \<noteq> []"
      and M: "M = (if dfs then last container else hd container)" and new: "M \<notin> visited"
    let ?popped = "if dfs then butlast container else tl container"
    let ?c' = "?popped @ filter (\<lambda>N. N \<notin> insert M visited) (successors pre post M tids)"
    have eq: "insert M visited \<union> set ?c' = (visited \<union> set container) \<union> set (successors pre post M tids)"
      using set_container_pop [OF ne, of dfs] M by auto
    have MR: "M \<in> ?R" using I set_container_pop [OF ne, of dfs] M by auto
    have 1: "set (r @ [M]) = insert M visited" using I by auto
    have 2: "M0 \<in> insert M visited \<union> set ?c'" unfolding eq using I by blast
    have 3: "insert M visited \<union> set ?c' \<subseteq> ?R"
      unfolding eq using I successors_reach [OF MR] by blast
    have 4: "\<forall>M' \<in> insert M visited. set (successors pre post M' tids) \<subseteq> insert M visited \<union> set ?c'"
      unfolding eq using I by blast
    from 1 2 3 4 show "?I (insert M visited) ?c' (r @ [M])" by blast
  qed
  then have ms: "M0 \<in> set ms" "set ms \<subseteq> ?R"
    "\<forall>M \<in> set ms. set (successors pre post M tids) \<subseteq> set ms" by auto
  have "M \<in> set ms" if "M \<in> ?R" for M
    using that
  proof induction
    case initial
    show ?case by (rule ms(1))
  next
    case (firing M tid)
    then have "fire M (lookup_set pre tid) (lookup_set post tid) \<in> set (successors pre post M tids)"
      by (auto simp: successors_def)
    with firing.IH ms(3) show ?case by blast
  qed
  with ms(2) show ?thesis by blast
qed

lemma compute_reach:
  assumes "compute_reachable_markings petrinet dfs = Inr ms"
  shows "\<exists>pre post. build_pre_post petrinet (transitions petrinet) [] [] = Inr (pre, post) \<and>
     set ms = reach pre post (sort (map fst (transitions petrinet))) (initial_marking_of petrinet)"
proof (cases rule: compute_cases [where petrinet = petrinet and dfs = dfs])
  case (KeyError e)
  with assms show ?thesis by simp
next
  case (Result pre post ms')
  with assms have ms: "ms' = ms" by simp
  from explore_reach [OF Result(2)] Result(1) ms show ?thesis by simp
qed

subsection \<open>The discovery sequence in the words of the specification\<close>

text \<open>
  Written from the specification: the frontier is a queue in breadth-first mode and a
  stack in depth-first mode; a popped marking that is visited is dropped; a popped marking
  that is not visited is marked visited and appended to the result, and its successors, in
  the order of the transition list, are pushed unless visited; the exploration ends on
  the empty frontier.
\<close>

inductive discovery ::
  "(string \<times> marking) list \<Rightarrow> (string \<times> marking) list \<Rightarrow> string list \<Rightarrow> bool \<Rightarrow>
   marking set \<Rightarrow> marking list \<Rightarrow> marking list \<Rightarrow> marking list \<Rightarrow> bool"
  for pre post tids where
    frontier_empty: "discovery pre post tids dfs visited [] r r"
  | queue_visited: "M \<in> visited \<Longrightarrow> discovery pre post tids False visited rest r ms \<Longrightarrow>
      discovery pre post tids False visited (M # rest) r ms"
  | stack_visited: "M \<in> visited \<Longrightarrow> discovery pre post tids True visited rest r ms \<Longrightarrow>
      discovery pre post tids True visited (rest @ [M]) r ms"
  | queue_new: "M \<notin> visited \<Longrightarrow>
      discovery pre post tids False (insert M visited)
        (rest @ filter (\<lambda>N. N \<notin> insert M visited) (successors pre post M tids))
        (r @ [M]) ms \<Longrightarrow>
      discovery pre post tids False visited (M # rest) r ms"
  | stack_new: "M \<notin> visited \<Longrightarrow>
      discovery pre post tids True (insert M visited)
        (rest @ filter (\<lambda>N. N \<notin> insert M visited) (successors pre post M tids))
        (r @ [M]) ms \<Longrightarrow>
      discovery pre post tids True visited (rest @ [M]) r ms"

lemma discovery_visited:
  assumes "container \<noteq> []" "(if dfs then last container else hd container) \<in> visited"
    "discovery pre post tids dfs visited (if dfs then butlast container else tl container) r ms"
  shows "discovery pre post tids dfs visited container r ms"
proof (cases dfs)
  case True
  from assms(1) have c: "butlast container @ [last container] = container" by simp
  from assms(2,3) True
  have "discovery pre post tids True visited (butlast container @ [last container]) r ms"
    by (intro discovery.stack_visited) simp_all
  then show ?thesis unfolding c using True by simp
next
  case False
  from assms(1) have c: "hd container # tl container = container" by simp
  from assms(2,3) False
  have "discovery pre post tids False visited (hd container # tl container) r ms"
    by (intro discovery.queue_visited) simp_all
  then show ?thesis unfolding c using False by simp
qed

lemma discovery_new:
  assumes "container \<noteq> []" "M = (if dfs then last container else hd container)" "M \<notin> visited"
    "discovery pre post tids dfs (insert M visited)
       ((if dfs then butlast container else tl container) @
          filter (\<lambda>N. N \<notin> insert M visited) (successors pre post M tids)) (r @ [M]) ms"
  shows "discovery pre post tids dfs visited container r ms"
proof (cases dfs)
  case True
  from assms(1,2) True have c: "butlast container @ [M] = container" by simp
  from assms(4) True
  have "discovery pre post tids True (insert M visited)
       (butlast container @
          filter (\<lambda>N. N \<notin> insert M visited) (successors pre post M tids)) (r @ [M]) ms"
    by simp
  with assms(3) have "discovery pre post tids True visited (butlast container @ [M]) r ms"
    by (rule discovery.stack_new)
  then show ?thesis unfolding c using True by simp
next
  case False
  from assms(1,2) False have c: "M # tl container = container" by simp
  from assms(4) False
  have "discovery pre post tids False (insert M visited)
       (tl container @
          filter (\<lambda>N. N \<notin> insert M visited) (successors pre post M tids)) (r @ [M]) ms"
    by simp
  with assms(3) have "discovery pre post tids False visited (M # tl container) r ms"
    by (rule discovery.queue_new)
  then show ?thesis unfolding c using False by simp
qed

lemma explore_discovery:
  "explore pre post tids dfs visited container r = Inr ms \<Longrightarrow>
   discovery pre post tids dfs visited container r ms"
proof (induction pre post tids dfs visited container r rule: explore.induct)
  case (1 pre post tids dfs visited container r)
  show ?case
  proof (cases "container = []")
    case True
    with "1.prems" show ?thesis by (auto intro: discovery.frontier_empty)
  next
    case ne: False
    let ?M = "if dfs then last container else hd container"
    let ?popped = "if dfs then butlast container else tl container"
    show ?thesis
    proof (cases "?M \<in> visited")
      case True
      have "explore pre post tids dfs visited ?popped r = Inr ms"
        using "1.prems" explore_step_visited [OF ne True] by simp
      from "1.IH"(2) [OF ne refl refl _ this] True
      have "discovery pre post tids dfs visited ?popped r ms" by simp
      with ne True show ?thesis by (rule discovery_visited)
    next
      case False
      from "1.prems" explore_step_new [OF ne refl False]
      obtain container' where
        fe: "fire_enabled pre post ?M (insert ?M visited) tids ?popped = Inr container'" and
        ex: "explore pre post tids dfs (insert ?M visited) container' (r @ [?M]) = Inr ms"
        by (auto split: sum.splits)
      have c': "container' = ?popped @ filter (\<lambda>N. N \<notin> insert ?M visited) (successors pre post ?M tids)"
        using fe by (rule fire_enabled_InrD)
      from "1.IH"(1) [OF ne refl refl False fe ex]
      have "discovery pre post tids dfs (insert ?M visited) container' (r @ [?M]) ms" .
      then have "discovery pre post tids dfs (insert ?M visited)
         (?popped @ filter (\<lambda>N. N \<notin> insert ?M visited) (successors pre post ?M tids))
         (r @ [?M]) ms"
        unfolding c' .
      with ne refl False show ?thesis by (rule discovery_new)
    qed
  qed
qed

lemma discovery_unique:
  "discovery pre post tids dfs visited container r ms \<Longrightarrow>
   discovery pre post tids dfs visited container r ms' \<Longrightarrow> ms' = ms"
proof (induction arbitrary: ms' rule: discovery.induct)
  case (frontier_empty dfs visited r)
  then show ?case by (auto elim: discovery.cases)
next
  case (queue_visited M visited rest r ms)
  from queue_visited.prems queue_visited.hyps(1) queue_visited.IH show ?case
    by (cases rule: discovery.cases) auto
next
  case (stack_visited M visited rest r ms)
  from stack_visited.prems stack_visited.hyps(1) stack_visited.IH show ?case
    by (cases rule: discovery.cases) auto
next
  case (queue_new M visited rest r ms)
  from queue_new.prems queue_new.hyps(1) queue_new.IH show ?case
    by (cases rule: discovery.cases) auto
next
  case (stack_new M visited rest r ms)
  from stack_new.prems stack_new.hyps(1) stack_new.IH show ?case
    by (cases rule: discovery.cases) auto
qed

lemma explore_starts_with_initial:
  assumes res: "explore pre post tids dfs {} [M0] [] = Inr ms"
  shows "ms \<noteq> [] \<and> hd ms = M0"
proof -
  let ?I = "\<lambda>(visited :: marking set) container r.
      (r = [] \<and> container = [M0] \<and> visited = {}) \<or> (r \<noteq> [] \<and> hd r = M0)"
  have "\<exists>visited'. ?I visited' [] ms"
  proof (rule explore_invariant [OF res, where I = ?I])
    show "?I {} [M0] []" by simp
  next
    fix visited container r
    assume "?I visited container r" "container \<noteq> []"
      "(if dfs then last container else hd container) \<in> visited"
    then show "?I visited (if dfs then butlast container else tl container) r" by auto
  next
    fix visited container r M
    assume "?I visited container r" "container \<noteq> []"
      "M = (if dfs then last container else hd container)" "M \<notin> visited"
    then show "?I (insert M visited)
          ((if dfs then butlast container else tl container) @
             filter (\<lambda>N. N \<notin> insert M visited) (successors pre post M tids))
          (r @ [M])"
      by auto
  qed
  then show ?thesis by simp
qed

lemma sort_keys_sorted_list_of_set:
  assumes "distinct (map fst xs)"
  shows "sort (map fst xs) = sorted_list_of_set (fst ` set xs)"
proof -
  have "sorted_list_of_set (set (map fst xs)) = sort (remdups (map fst xs))"
    by (rule sorted_list_of_set_sort_remdups)
  with assms show ?thesis by (simp add: distinct_remdups_id)
qed

section \<open>parsePNML\<close>

text \<open>
  The element tree that \<^verbatim>\<open>xml.etree.ElementTree\<close> hands to the parser: a tag, the
  attributes, the text before the first child (\<^verbatim>\<open>None\<close> when there is none) and the
  children in document order.
\<close>

datatype xml = Element (elem_tag: string) (elem_attrib: "(string \<times> string) list")
  (elem_text: "string option") (elem_children: "xml list")

text \<open>The exception \<^verbatim>\<open>Error\<close>, one constructor for each message of the parser.\<close>

datatype Error =
    NoNetElement
  | PlaceNoId
  | DuplicatePlaceId string
  | TransitionNoId
  | DuplicateTransitionId string
  | ArcNoId
  | DuplicateArcId string
  | ArcNoSourceTarget string
  | ArcWeightNotPositive string int
  | ArcSourceNotFound string string
  | ArcTargetNotFound string string
  | IsolatedNodes "(string \<times> string) list"
  | NonBinaryMarkings "(string \<times> int) list"
  | ArcWeightsNotOne "string list"

text \<open>\<^verbatim>\<open>elem.tag.split('}', 1)[1]\<close>: the tag after its first closing brace.\<close>

fun strip_namespace :: "xml \<Rightarrow> xml" where
  "strip_namespace (Element tag attrib txt children) =
     Element (if CHR ''}'' \<in> set tag then tl (dropWhile (\<lambda>c. c \<noteq> CHR ''}'') tag) else tag)
       attrib txt (map strip_namespace children)"

text \<open>\<^verbatim>\<open>elem.find(tag)\<close>, \<^verbatim>\<open>elem.findall(tag)\<close> and \<^verbatim>\<open>elem.get(key)\<close>.\<close>

definition find_child :: "xml \<Rightarrow> string \<Rightarrow> xml option" where
  "find_child elem tag = List.find (\<lambda>c. elem_tag c = tag) (elem_children elem)"

definition findall :: "xml \<Rightarrow> string \<Rightarrow> xml list" where
  "findall elem tag = filter (\<lambda>c. elem_tag c = tag) (elem_children elem)"

definition get_attr :: "xml \<Rightarrow> string \<Rightarrow> string option" where
  "get_attr elem key = map_of (elem_attrib elem) key"

text \<open>
  \<^verbatim>\<open>str.strip()\<close>. A character of the model is a code point below 256; the whitespace
  characters of Python among them are the tab, the line feed, the vertical tab, the form
  feed, the carriage return, the four separators 28 to 31, the space, the next-line
  character 133 and the no-break space 160.
\<close>

definition is_space :: "char \<Rightarrow> bool" where
  "is_space c = ((of_char c :: nat) \<in> {9, 10, 11, 12, 13, 28, 29, 30, 31, 32, 133, 160})"

definition py_strip :: "string \<Rightarrow> string" where
  "py_strip s = rev (dropWhile is_space (rev (dropWhile is_space s)))"

text \<open>The truth value of an \<^verbatim>\<open>Optional[str]\<close> and the operator \<^verbatim>\<open>or\<close> on two of them.\<close>

definition truthy :: "string option \<Rightarrow> bool" where
  "truthy s = (case s of None \<Rightarrow> False | Some t \<Rightarrow> t \<noteq> [])"

definition py_or :: "string option \<Rightarrow> string option \<Rightarrow> string option" where
  "py_or a b = (if truthy a then a else b)"

fun descend :: "xml \<Rightarrow> string list \<Rightarrow> xml option" where
  "descend elem [] = Some elem"
| "descend elem (part # parts) =
     (case find_child elem part of None \<Rightarrow> None | Some child \<Rightarrow> descend child parts)"

definition parseText :: "xml \<Rightarrow> string list \<Rightarrow> string option" where
  "parseText parent path_parts =
     (case descend parent path_parts of
        None \<Rightarrow> None
      | Some elem \<Rightarrow>
          if truthy (elem_text elem) \<and> truthy (map_option py_strip (elem_text elem))
          then map_option py_strip (elem_text elem)
          else (case find_child elem ''text'' of
                  None \<Rightarrow> None
                | Some child \<Rightarrow>
                    if truthy (elem_text child) then map_option py_strip (elem_text child)
                    else None))"

text \<open>
  \<^verbatim>\<open>int(s)\<close> in base ten: surrounding whitespace, an optional sign, then digits that
  single underscores may separate (below code point 256 the decimal digits are the ten
  ASCII ones). A text of more than \<open>max_str_digits\<close> digits is refused, leading zeros
  counted and underscores not. \<^verbatim>\<open>None\<close> stands for the \<^verbatim>\<open>ValueError\<close>.
\<close>

definition max_str_digits :: nat where
  "max_str_digits = 4300"

definition is_digit :: "char \<Rightarrow> bool" where
  "is_digit c = (48 \<le> (of_char c :: nat) \<and> (of_char c :: nat) \<le> 57)"

fun digits_value :: "string \<Rightarrow> nat \<Rightarrow> nat option" where
  "digits_value [] acc = Some acc"
| "digits_value (c # cs) acc =
     (if is_digit c then digits_value cs (10 * acc + (of_char c - 48))
      else if c = CHR ''_'' \<and> cs \<noteq> [] \<and> is_digit (hd cs) then digits_value cs acc
      else None)"

definition unsigned_value :: "string \<Rightarrow> nat option" where
  "unsigned_value s =
     (if s \<noteq> [] \<and> is_digit (hd s) \<and> length (filter is_digit s) \<le> max_str_digits
      then digits_value s 0 else None)"

definition py_int :: "string \<Rightarrow> int option" where
  "py_int s =
     (case py_strip s of
        [] \<Rightarrow> None
      | c # cs \<Rightarrow>
          if c = CHR ''-'' then map_option (\<lambda>n. - int n) (unsigned_value cs)
          else if c = CHR ''+'' then map_option int (unsigned_value cs)
          else map_option int (unsigned_value (c # cs)))"

definition parseInteger :: "string option \<Rightarrow> int \<Rightarrow> int" where
  "parseInteger s default_value =
     (case s of
        None \<Rightarrow> default_value
      | Some t \<Rightarrow> (case py_int (py_strip t) of None \<Rightarrow> default_value | Some n \<Rightarrow> n))"

text \<open>The texts that the three loops read from an element.\<close>

definition name_text :: "xml \<Rightarrow> string option" where
  "name_text e = py_or (parseText e [''name'', ''text'']) (parseText e [''name''])"

definition initial_marking_text :: "xml \<Rightarrow> string option" where
  "initial_marking_text p =
     py_or (py_or (parseText p [''initialMarking'', ''text'']) (parseText p [''initialMarking'']))
       (parseText p [''initial-marking''])"

definition weight_text :: "xml \<Rightarrow> string option" where
  "weight_text a =
     py_or (py_or (parseText a [''inscription'', ''text'']) (parseText a [''inscription'']))
       (parseText a [''inscription'', ''value''])"

text \<open>The body of the loop over the \<^verbatim>\<open>place\<close> elements, and the loop.\<close>

definition place_of_elem :: "xml \<Rightarrow> (string \<times> Place) list \<Rightarrow> Error + Place" where
  "place_of_elem p place_map =
     (case get_attr p ''id'' of
        None \<Rightarrow> Inl PlaceNoId
      | Some pid \<Rightarrow>
          if pid \<in> fst ` set place_map then Inl (DuplicatePlaceId pid)
          else Inr \<lparr>p_id = pid, p_name = name_text p,
                    p_initial_marking = parseInteger (initial_marking_text p) 0,
                    p_incoming = [], p_outgoing = []\<rparr>)"

fun collect_place_elems :: "xml list \<Rightarrow> (string \<times> Place) list \<Rightarrow> Error + (string \<times> Place) list" where
  "collect_place_elems [] place_map = Inr place_map"
| "collect_place_elems (p # ps) place_map =
     (case place_of_elem p place_map of
        Inl e \<Rightarrow> Inl e
      | Inr pl \<Rightarrow> collect_place_elems ps (AList.update (p_id pl) pl place_map))"

text \<open>The same for the \<^verbatim>\<open>transition\<close> elements.\<close>

definition transition_of_elem :: "xml \<Rightarrow> (string \<times> Transition) list \<Rightarrow> Error + Transition" where
  "transition_of_elem t transition_map =
     (case get_attr t ''id'' of
        None \<Rightarrow> Inl TransitionNoId
      | Some tid \<Rightarrow>
          if tid \<in> fst ` set transition_map then Inl (DuplicateTransitionId tid)
          else Inr \<lparr>t_id = tid, t_name = name_text t, t_incoming = [], t_outgoing = []\<rparr>)"

fun collect_transition_elems ::
  "xml list \<Rightarrow> (string \<times> Transition) list \<Rightarrow> Error + (string \<times> Transition) list" where
  "collect_transition_elems [] transition_map = Inr transition_map"
| "collect_transition_elems (t # ts) transition_map =
     (case transition_of_elem t transition_map of
        Inl e \<Rightarrow> Inl e
      | Inr tr \<Rightarrow> collect_transition_elems ts (AList.update (t_id tr) tr transition_map))"

text \<open>The same for the \<^verbatim>\<open>arc\<close> elements, with the check of the weight.\<close>

definition arc_of_elem :: "xml \<Rightarrow> (string \<times> Arc) list \<Rightarrow> Error + Arc" where
  "arc_of_elem a arc_map =
     (case get_attr a ''id'' of
        None \<Rightarrow> Inl ArcNoId
      | Some aid \<Rightarrow>
          if aid \<in> fst ` set arc_map then Inl (DuplicateArcId aid)
          else (case (get_attr a ''source'', get_attr a ''target'') of
                  (Some source, Some target) \<Rightarrow>
                    let weight = parseInteger (weight_text a) 1
                    in if weight \<le> 0 then Inl (ArcWeightNotPositive aid weight)
                       else Inr \<lparr>a_id = aid, a_source = source, a_target = target,
                                 a_weight = weight\<rparr>
                | _ \<Rightarrow> Inl (ArcNoSourceTarget aid)))"

fun collect_arc_elems :: "xml list \<Rightarrow> (string \<times> Arc) list \<Rightarrow> Error + (string \<times> Arc) list" where
  "collect_arc_elems [] arc_map = Inr arc_map"
| "collect_arc_elems (a # as) arc_map =
     (case arc_of_elem a arc_map of
        Inl e \<Rightarrow> Inl e
      | Inr arc \<Rightarrow> collect_arc_elems as (AList.update (a_id arc) arc arc_map))"

text \<open>
  The loop over \<^verbatim>\<open>arcs.items()\<close> that checks the two endpoints of an arc and appends its
  id to the lists of its nodes; a node id that is a place is looked up in \<^verbatim>\<open>places\<close>,
  any other one in \<^verbatim>\<open>transitions\<close>.
\<close>

definition node_exists :: "(string \<times> Place) list \<Rightarrow> (string \<times> Transition) list \<Rightarrow> string \<Rightarrow> bool" where
  "node_exists place_map transition_map node_id =
     (node_id \<in> fst ` set place_map \<or> node_id \<in> fst ` set transition_map)"

definition attach_outgoing ::
  "string \<Rightarrow> string \<Rightarrow> (string \<times> Place) list \<times> (string \<times> Transition) list \<Rightarrow>
   (string \<times> Place) list \<times> (string \<times> Transition) list" where
  "attach_outgoing node aid nodes =
     (case nodes of (place_map, transition_map) \<Rightarrow>
        if node \<in> fst ` set place_map
        then (AList.map_entry node (\<lambda>p. p\<lparr>p_outgoing := p_outgoing p @ [aid]\<rparr>) place_map, transition_map)
        else (place_map, AList.map_entry node (\<lambda>t. t\<lparr>t_outgoing := t_outgoing t @ [aid]\<rparr>) transition_map))"

definition attach_incoming ::
  "string \<Rightarrow> string \<Rightarrow> (string \<times> Place) list \<times> (string \<times> Transition) list \<Rightarrow>
   (string \<times> Place) list \<times> (string \<times> Transition) list" where
  "attach_incoming node aid nodes =
     (case nodes of (place_map, transition_map) \<Rightarrow>
        if node \<in> fst ` set place_map
        then (AList.map_entry node (\<lambda>p. p\<lparr>p_incoming := p_incoming p @ [aid]\<rparr>) place_map, transition_map)
        else (place_map, AList.map_entry node (\<lambda>t. t\<lparr>t_incoming := t_incoming t @ [aid]\<rparr>) transition_map))"

fun link_arcs ::
  "(string \<times> Arc) list \<Rightarrow> (string \<times> Place) list \<times> (string \<times> Transition) list \<Rightarrow>
   Error + (string \<times> Place) list \<times> (string \<times> Transition) list" where
  "link_arcs [] nodes = Inr nodes"
| "link_arcs ((aid, arc) # rest) nodes =
     (if \<not> node_exists (fst nodes) (snd nodes) (a_source arc)
      then Inl (ArcSourceNotFound aid (a_source arc))
      else if \<not> node_exists (fst nodes) (snd nodes) (a_target arc)
      then Inl (ArcTargetNotFound aid (a_target arc))
      else link_arcs rest
             (attach_incoming (a_target arc) aid (attach_outgoing (a_source arc) aid nodes)))"

text \<open>The two lists of the check for isolated nodes, places first.\<close>

definition isolated_nodes ::
  "(string \<times> Place) list \<Rightarrow> (string \<times> Transition) list \<Rightarrow> (string \<times> string) list" where
  "isolated_nodes place_map transition_map =
     map (\<lambda>(pid, p). (''place'', pid))
       (filter (\<lambda>(pid, p). p_incoming p = [] \<and> p_outgoing p = []) place_map) @
     map (\<lambda>(tid, t). (''transition'', tid))
       (filter (\<lambda>(tid, t). t_incoming t = [] \<and> t_outgoing t = []) transition_map)"

text \<open>The two lists of the 1-safe check.\<close>

definition bad_markings :: "(string \<times> Place) list \<Rightarrow> (string \<times> int) list" where
  "bad_markings place_map =
     map (\<lambda>(pid, p). (pid, p_initial_marking p))
       (filter (\<lambda>(pid, p). p_initial_marking p \<notin> {0, 1}) place_map)"

definition heavy_arcs :: "(string \<times> Arc) list \<Rightarrow> string list" where
  "heavy_arcs arc_map = map fst (filter (\<lambda>(aid, a). a_weight a \<noteq> 1) arc_map)"

definition check_1safe :: "PetriNet \<Rightarrow> Error + PetriNet" where
  "check_1safe net =
     (if bad_markings (places net) \<noteq> [] then Inl (NonBinaryMarkings (bad_markings (places net)))
      else if heavy_arcs (arcs net) \<noteq> [] then Inl (ArcWeightsNotOne (heavy_arcs (arcs net)))
      else Inr net)"

text \<open>
  The parser up to the linking of the arcs, on the root element of the parsed file: the
  first \<^verbatim>\<open>net\<close> child of the root, its places, transitions and arcs, and the links.
\<close>

definition linked_net :: "xml \<Rightarrow> Error + PetriNet" where
  "linked_net root =
     (case find_child (strip_namespace root) ''net'' of
        None \<Rightarrow> Inl NoNetElement
      | Some net_elem \<Rightarrow>
          (case collect_place_elems (findall net_elem ''place'') [] of
             Inl e \<Rightarrow> Inl e
           | Inr places0 \<Rightarrow>
               (case collect_transition_elems (findall net_elem ''transition'') [] of
                  Inl e \<Rightarrow> Inl e
                | Inr transitions0 \<Rightarrow>
                    (case collect_arc_elems (findall net_elem ''arc'') [] of
                       Inl e \<Rightarrow> Inl e
                     | Inr arcs0 \<Rightarrow>
                         (case link_arcs arcs0 (places0, transitions0) of
                            Inl e \<Rightarrow> Inl e
                          | Inr (places1, transitions1) \<Rightarrow>
                              Inr \<lparr>net_id = get_attr net_elem ''id'', places = places1,
                                    transitions = transitions1, arcs = arcs0\<rparr>)))))"

definition parsePNML :: "xml \<Rightarrow> bool \<Rightarrow> Error + PetriNet" where
  "parsePNML root require_1safe =
     (case linked_net root of
        Inl e \<Rightarrow> Inl e
      | Inr net \<Rightarrow>
          if isolated_nodes (places net) (transitions net) \<noteq> []
          then Inl (IsolatedNodes (isolated_nodes (places net) (transitions net)))
          else if require_1safe then check_1safe net
          else Inr net)"

subsection \<open>Which loop raises which error\<close>

lemma place_of_elem_Inl:
  "place_of_elem p place_map = Inl e \<Longrightarrow> e = PlaceNoId \<or> (\<exists>pid. e = DuplicatePlaceId pid)"
  by (auto simp: place_of_elem_def split: option.split_asm if_split_asm)

lemma collect_place_elems_Inl:
  "collect_place_elems ps place_map = Inl e \<Longrightarrow>
   e = PlaceNoId \<or> (\<exists>pid. e = DuplicatePlaceId pid)"
proof (induction ps arbitrary: place_map)
  case Nil
  then show ?case by simp
next
  case (Cons p ps)
  then show ?case
    by (auto split: sum.split_asm dest: place_of_elem_Inl)
qed

lemma transition_of_elem_Inl:
  "transition_of_elem t transition_map = Inl e \<Longrightarrow>
   e = TransitionNoId \<or> (\<exists>tid. e = DuplicateTransitionId tid)"
  by (auto simp: transition_of_elem_def split: option.split_asm if_split_asm)

lemma collect_transition_elems_Inl:
  "collect_transition_elems ts transition_map = Inl e \<Longrightarrow>
   e = TransitionNoId \<or> (\<exists>tid. e = DuplicateTransitionId tid)"
proof (induction ts arbitrary: transition_map)
  case Nil
  then show ?case by simp
next
  case (Cons t ts)
  then show ?case
    by (auto split: sum.split_asm dest: transition_of_elem_Inl)
qed

lemma arc_of_elem_Inl:
  "arc_of_elem a arc_map = Inl e \<Longrightarrow>
   e = ArcNoId \<or> (\<exists>aid. e = DuplicateArcId aid) \<or> (\<exists>aid. e = ArcNoSourceTarget aid) \<or>
   (\<exists>aid w. e = ArcWeightNotPositive aid w)"
  by (auto simp: arc_of_elem_def Let_def split: option.split_asm if_split_asm)

lemma collect_arc_elems_Inl:
  "collect_arc_elems xs arc_map = Inl e \<Longrightarrow>
   e = ArcNoId \<or> (\<exists>aid. e = DuplicateArcId aid) \<or> (\<exists>aid. e = ArcNoSourceTarget aid) \<or>
   (\<exists>aid w. e = ArcWeightNotPositive aid w)"
proof (induction xs arbitrary: arc_map)
  case Nil
  then show ?case by simp
next
  case (Cons a xs)
  show ?case
  proof (cases "arc_of_elem a arc_map")
    case (Inl e')
    with Cons.prems have "e' = e" by simp
    with Inl show ?thesis using arc_of_elem_Inl by blast
  next
    case (Inr arc)
    with Cons.prems Cons.IH show ?thesis by simp
  qed
qed

lemma link_arcs_Inl:
  "link_arcs arc_map nodes = Inl e \<Longrightarrow>
   (\<exists>aid n. e = ArcSourceNotFound aid n) \<or> (\<exists>aid n. e = ArcTargetNotFound aid n)"
proof (induction arc_map arbitrary: nodes)
  case Nil
  then show ?case by simp
next
  case (Cons x xs)
  obtain aid arc where x: "x = (aid, arc)" by (cases x)
  from Cons.prems Cons.IH show ?case
    unfolding x by (auto split: if_split_asm)
qed

text \<open>The errors of the parser before the two validations.\<close>

definition construction_error :: "Error \<Rightarrow> bool" where
  "construction_error e =
     (case e of IsolatedNodes ns \<Rightarrow> False | NonBinaryMarkings bs \<Rightarrow> False
      | ArcWeightsNotOne hs \<Rightarrow> False | _ \<Rightarrow> True)"

lemma linked_net_Inl: "linked_net root = Inl e \<Longrightarrow> construction_error e"
  unfolding linked_net_def
  by (auto simp: construction_error_def
      split: option.split_asm sum.split_asm prod.split_asm
      dest!: collect_place_elems_Inl collect_transition_elems_Inl collect_arc_elems_Inl
        link_arcs_Inl)

lemma linked_net_Inl_weight:
  "linked_net root = Inl (ArcWeightNotPositive aid w) \<Longrightarrow>
   \<exists>net_elem place_map transition_map.
     find_child (strip_namespace root) ''net'' = Some net_elem \<and>
     collect_place_elems (findall net_elem ''place'') [] = Inr place_map \<and>
     collect_transition_elems (findall net_elem ''transition'') [] = Inr transition_map \<and>
     collect_arc_elems (findall net_elem ''arc'') [] = Inl (ArcWeightNotPositive aid w)"
  unfolding linked_net_def
  by (auto split: option.split_asm sum.split_asm prod.split_asm
      dest!: collect_place_elems_Inl collect_transition_elems_Inl link_arcs_Inl)

lemma check_1safe_Inl:
  "check_1safe net = Inl e \<Longrightarrow>
   (e = NonBinaryMarkings (bad_markings (places net)) \<and> bad_markings (places net) \<noteq> []) \<or>
   (e = ArcWeightsNotOne (heavy_arcs (arcs net)) \<and> heavy_arcs (arcs net) \<noteq> [] \<and>
      bad_markings (places net) = [])"
  by (auto simp: check_1safe_def split: if_split_asm)

lemma check_1safe_Inr: "check_1safe net = Inr net' \<Longrightarrow> net' = net"
  by (auto simp: check_1safe_def split: if_split_asm)

lemma parsePNML_Inr:
  "parsePNML root r = Inr net \<Longrightarrow>
   linked_net root = Inr net \<and> isolated_nodes (places net) (transitions net) = [] \<and>
   (r \<longrightarrow> check_1safe net = Inr net)"
  unfolding parsePNML_def
  by (auto split: sum.split_asm if_split_asm dest: check_1safe_Inr)

lemma parsePNML_construction_error:
  "construction_error e \<Longrightarrow> parsePNML root r = Inl e \<longleftrightarrow> linked_net root = Inl e"
  unfolding parsePNML_def
  by (auto simp: construction_error_def split: sum.splits Error.splits dest!: check_1safe_Inl)

subsection \<open>What the three collecting loops return\<close>

lemma update_fresh: "k \<notin> fst ` set al \<Longrightarrow> AList.update k v al = al @ [(k, v)]"
  by (induction al) auto

text \<open>The id of an element that has one, and the entries that the loops make of an element.\<close>

definition elem_id :: "xml \<Rightarrow> string" where
  "elem_id e = (case get_attr e ''id'' of None \<Rightarrow> [] | Some i \<Rightarrow> i)"

definition place_entry :: "xml \<Rightarrow> string \<times> Place" where
  "place_entry p =
     (elem_id p, \<lparr>p_id = elem_id p, p_name = name_text p,
                  p_initial_marking = parseInteger (initial_marking_text p) 0,
                  p_incoming = [], p_outgoing = []\<rparr>)"

definition transition_entry :: "xml \<Rightarrow> string \<times> Transition" where
  "transition_entry t =
     (elem_id t, \<lparr>t_id = elem_id t, t_name = name_text t, t_incoming = [], t_outgoing = []\<rparr>)"

definition arc_entry :: "xml \<Rightarrow> string \<times> Arc" where
  "arc_entry a =
     (elem_id a, \<lparr>a_id = elem_id a,
                  a_source = (case get_attr a ''source'' of None \<Rightarrow> [] | Some s \<Rightarrow> s),
                  a_target = (case get_attr a ''target'' of None \<Rightarrow> [] | Some s \<Rightarrow> s),
                  a_weight = parseInteger (weight_text a) 1\<rparr>)"

lemma place_of_elem_Inr:
  "place_of_elem p place_map = Inr pl \<Longrightarrow>
   get_attr p ''id'' = Some (elem_id p) \<and> elem_id p \<notin> fst ` set place_map \<and>
   (p_id pl, pl) = place_entry p"
  by (auto simp: place_of_elem_def place_entry_def elem_id_def
      split: option.split_asm if_split_asm)

lemma transition_of_elem_Inr:
  "transition_of_elem t transition_map = Inr tr \<Longrightarrow>
   get_attr t ''id'' = Some (elem_id t) \<and> elem_id t \<notin> fst ` set transition_map \<and>
   (t_id tr, tr) = transition_entry t"
  by (auto simp: transition_of_elem_def transition_entry_def elem_id_def
      split: option.split_asm if_split_asm)

lemma arc_of_elem_Inr:
  "arc_of_elem a arc_map = Inr arc \<Longrightarrow>
   get_attr a ''id'' = Some (elem_id a) \<and> elem_id a \<notin> fst ` set arc_map \<and>
   (a_id arc, arc) = arc_entry a"
  by (auto simp: arc_of_elem_def arc_entry_def elem_id_def Let_def
      split: option.split_asm if_split_asm)

lemma collect_place_elems_Inr:
  "collect_place_elems ps place_map = Inr res \<Longrightarrow>
   res = place_map @ map place_entry ps \<and>
   (\<forall>p \<in> set ps. get_attr p ''id'' = Some (elem_id p)) \<and>
   (distinct (map fst place_map) \<longrightarrow> distinct (map fst res))"
proof (induction ps arbitrary: place_map)
  case Nil
  then show ?case by simp
next
  case (Cons p ps)
  from Cons.prems obtain pl where pl: "place_of_elem p place_map = Inr pl"
    and rest: "collect_place_elems ps (AList.update (p_id pl) pl place_map) = Inr res"
    by (auto split: sum.split_asm)
  note e = place_of_elem_Inr [OF pl]
  from e have k: "p_id pl = elem_id p" by (simp add: place_entry_def)
  with e have u: "AList.update (p_id pl) pl place_map = place_map @ [place_entry p]"
    by (simp add: update_fresh)
  have d: "distinct (map fst place_map) \<Longrightarrow> distinct (map fst (place_map @ [place_entry p]))"
    using e by (auto simp: place_entry_def)
  from Cons.IH [OF rest] have
    r1: "res = (place_map @ [place_entry p]) @ map place_entry ps" and
    r2: "\<forall>y \<in> set ps. get_attr y ''id'' = Some (elem_id y)" and
    r3: "distinct (map fst (place_map @ [place_entry p])) \<longrightarrow> distinct (map fst res)"
    unfolding u by blast+
  from r1 have "res = place_map @ map place_entry (p # ps)" by simp
  moreover from e r2 have "\<forall>y \<in> set (p # ps). get_attr y ''id'' = Some (elem_id y)" by simp
  moreover from d r3 have "distinct (map fst place_map) \<longrightarrow> distinct (map fst res)" by blast
  ultimately show ?case by blast
qed

lemma collect_transition_elems_Inr:
  "collect_transition_elems ts transition_map = Inr res \<Longrightarrow>
   res = transition_map @ map transition_entry ts \<and>
   (\<forall>t \<in> set ts. get_attr t ''id'' = Some (elem_id t)) \<and>
   (distinct (map fst transition_map) \<longrightarrow> distinct (map fst res))"
proof (induction ts arbitrary: transition_map)
  case Nil
  then show ?case by simp
next
  case (Cons t ts)
  from Cons.prems obtain tr where tr: "transition_of_elem t transition_map = Inr tr"
    and rest: "collect_transition_elems ts (AList.update (t_id tr) tr transition_map) = Inr res"
    by (auto split: sum.split_asm)
  note e = transition_of_elem_Inr [OF tr]
  from e have k: "t_id tr = elem_id t" by (simp add: transition_entry_def)
  with e have u: "AList.update (t_id tr) tr transition_map = transition_map @ [transition_entry t]"
    by (simp add: update_fresh)
  have d: "distinct (map fst transition_map) \<Longrightarrow>
      distinct (map fst (transition_map @ [transition_entry t]))"
    using e by (auto simp: transition_entry_def)
  from Cons.IH [OF rest] have
    r1: "res = (transition_map @ [transition_entry t]) @ map transition_entry ts" and
    r2: "\<forall>y \<in> set ts. get_attr y ''id'' = Some (elem_id y)" and
    r3: "distinct (map fst (transition_map @ [transition_entry t])) \<longrightarrow> distinct (map fst res)"
    unfolding u by blast+
  from r1 have "res = transition_map @ map transition_entry (t # ts)" by simp
  moreover from e r2 have "\<forall>y \<in> set (t # ts). get_attr y ''id'' = Some (elem_id y)" by simp
  moreover from d r3 have "distinct (map fst transition_map) \<longrightarrow> distinct (map fst res)" by blast
  ultimately show ?case by blast
qed

lemma collect_arc_elems_Inr:
  "collect_arc_elems xs arc_map = Inr res \<Longrightarrow>
   res = arc_map @ map arc_entry xs \<and>
   (\<forall>a \<in> set xs. get_attr a ''id'' = Some (elem_id a)) \<and>
   (distinct (map fst arc_map) \<longrightarrow> distinct (map fst res))"
proof (induction xs arbitrary: arc_map)
  case Nil
  then show ?case by simp
next
  case (Cons a xs)
  from Cons.prems obtain arc where arc: "arc_of_elem a arc_map = Inr arc"
    and rest: "collect_arc_elems xs (AList.update (a_id arc) arc arc_map) = Inr res"
    by (auto split: sum.split_asm)
  note e = arc_of_elem_Inr [OF arc]
  from e have k: "a_id arc = elem_id a" by (simp add: arc_entry_def)
  with e have u: "AList.update (a_id arc) arc arc_map = arc_map @ [arc_entry a]"
    by (simp add: update_fresh)
  have d: "distinct (map fst arc_map) \<Longrightarrow> distinct (map fst (arc_map @ [arc_entry a]))"
    using e by (auto simp: arc_entry_def)
  from Cons.IH [OF rest] have
    r1: "res = (arc_map @ [arc_entry a]) @ map arc_entry xs" and
    r2: "\<forall>y \<in> set xs. get_attr y ''id'' = Some (elem_id y)" and
    r3: "distinct (map fst (arc_map @ [arc_entry a])) \<longrightarrow> distinct (map fst res)"
    unfolding u by blast+
  from r1 have "res = arc_map @ map arc_entry (a # xs)" by simp
  moreover from e r2 have "\<forall>y \<in> set (a # xs). get_attr y ''id'' = Some (elem_id y)" by simp
  moreover from d r3 have "distinct (map fst arc_map) \<longrightarrow> distinct (map fst res)" by blast
  ultimately show ?case by blast
qed

text \<open>The first element on which the loop over the arcs fails.\<close>

lemma collect_arc_elems_Inl_iff:
  "collect_arc_elems xs arc_map = Inl e \<longleftrightarrow>
   (\<exists>before a after. xs = before @ a # after \<and>
      (\<exists>arc_map'. collect_arc_elems before arc_map = Inr arc_map' \<and>
         arc_of_elem a arc_map' = Inl e))"
proof (induction xs arbitrary: arc_map)
  case Nil
  then show ?case by simp
next
  case (Cons x xs)
  show ?case
  proof (cases "arc_of_elem x arc_map")
    case (Inl e')
    show ?thesis
    proof
      assume "collect_arc_elems (x # xs) arc_map = Inl e"
      with Inl have "arc_of_elem x arc_map = Inl e" by simp
      then have "x # xs = [] @ x # xs \<and>
        (\<exists>arc_map'. collect_arc_elems [] arc_map = Inr arc_map' \<and> arc_of_elem x arc_map' = Inl e)"
        by simp
      then show "\<exists>before a after. x # xs = before @ a # after \<and>
        (\<exists>arc_map'. collect_arc_elems before arc_map = Inr arc_map' \<and>
           arc_of_elem a arc_map' = Inl e)"
        by blast
    next
      assume "\<exists>before a after. x # xs = before @ a # after \<and>
        (\<exists>arc_map'. collect_arc_elems before arc_map = Inr arc_map' \<and>
           arc_of_elem a arc_map' = Inl e)"
      then obtain before a after arc_map' where
        s: "x # xs = before @ a # after" and
        c: "collect_arc_elems before arc_map = Inr arc_map'" and
        f: "arc_of_elem a arc_map' = Inl e"
        by blast
      show "collect_arc_elems (x # xs) arc_map = Inl e"
      proof (cases before)
        case Nil
        with s c f Inl show ?thesis by simp
      next
        case (Cons b bs)
        with s have "b = x" by simp
        with Cons c Inl show ?thesis by simp
      qed
    qed
  next
    case (Inr arc)
    let ?m = "AList.update (a_id arc) arc arc_map"
    have step: "collect_arc_elems (x # xs) arc_map = collect_arc_elems xs ?m"
      using Inr by simp
    show ?thesis
    proof
      assume "collect_arc_elems (x # xs) arc_map = Inl e"
      with step have "collect_arc_elems xs ?m = Inl e" by simp
      with Cons.IH [of ?m] obtain before a after arc_map' where
        s: "xs = before @ a # after" and
        c: "collect_arc_elems before ?m = Inr arc_map'" and
        f: "arc_of_elem a arc_map' = Inl e"
        by blast
      from s have "x # xs = (x # before) @ a # after" by simp
      moreover from c Inr have "collect_arc_elems (x # before) arc_map = Inr arc_map'" by simp
      ultimately show "\<exists>before a after. x # xs = before @ a # after \<and>
        (\<exists>arc_map'. collect_arc_elems before arc_map = Inr arc_map' \<and>
           arc_of_elem a arc_map' = Inl e)"
        using f by blast
    next
      assume "\<exists>before a after. x # xs = before @ a # after \<and>
        (\<exists>arc_map'. collect_arc_elems before arc_map = Inr arc_map' \<and>
           arc_of_elem a arc_map' = Inl e)"
      then obtain before a after arc_map' where
        s: "x # xs = before @ a # after" and
        c: "collect_arc_elems before arc_map = Inr arc_map'" and
        f: "arc_of_elem a arc_map' = Inl e"
        by blast
      show "collect_arc_elems (x # xs) arc_map = Inl e"
      proof (cases before)
        case Nil
        with s c f Inr show ?thesis by simp
      next
        case (Cons b bs)
        with s have bx: "b = x" and xs: "xs = bs @ a # after" by simp_all
        from c Cons bx Inr have "collect_arc_elems bs ?m = Inr arc_map'" by simp
        with xs f Cons.IH [of ?m] have "collect_arc_elems xs ?m = Inl e" by blast
        with step show ?thesis by simp
      qed
    qed
  qed
qed

subsection \<open>The numeric texts\<close>

lemma parseInteger_le_default:
  "parseInteger s d \<le> 0 \<Longrightarrow> 0 < d \<Longrightarrow>
   \<exists>t. s = Some t \<and> py_int (py_strip t) = Some (parseInteger s d)"
  by (auto simp: parseInteger_def split: option.split_asm)

lemma arc_of_elem_weight_error:
  "arc_of_elem a arc_map = Inl (ArcWeightNotPositive aid w) \<longleftrightarrow>
   get_attr a ''id'' = Some aid \<and> aid \<notin> fst ` set arc_map \<and>
   get_attr a ''source'' \<noteq> None \<and> get_attr a ''target'' \<noteq> None \<and>
   (\<exists>t. weight_text a = Some t \<and> py_int (py_strip t) = Some w) \<and> w \<le> 0"
proof
  assume l: "arc_of_elem a arc_map = Inl (ArcWeightNotPositive aid w)"
  then have id: "get_attr a ''id'' = Some aid" "aid \<notin> fst ` set arc_map"
    and st: "get_attr a ''source'' \<noteq> None" "get_attr a ''target'' \<noteq> None"
    and w: "w = parseInteger (weight_text a) 1" "w \<le> 0"
    by (auto simp: arc_of_elem_def Let_def split: option.split_asm if_split_asm)
  from parseInteger_le_default [of "weight_text a" 1] w
  have "\<exists>t. weight_text a = Some t \<and> py_int (py_strip t) = Some w" by simp
  with id st w show "get_attr a ''id'' = Some aid \<and> aid \<notin> fst ` set arc_map \<and>
   get_attr a ''source'' \<noteq> None \<and> get_attr a ''target'' \<noteq> None \<and>
   (\<exists>t. weight_text a = Some t \<and> py_int (py_strip t) = Some w) \<and> w \<le> 0"
    by blast
next
  assume "get_attr a ''id'' = Some aid \<and> aid \<notin> fst ` set arc_map \<and>
   get_attr a ''source'' \<noteq> None \<and> get_attr a ''target'' \<noteq> None \<and>
   (\<exists>t. weight_text a = Some t \<and> py_int (py_strip t) = Some w) \<and> w \<le> 0"
  then show "arc_of_elem a arc_map = Inl (ArcWeightNotPositive aid w)"
    by (auto simp: arc_of_elem_def Let_def parseInteger_def)
qed

lemma arc_of_elem_Inr_weight:
  "arc_of_elem a arc_map = Inr arc \<Longrightarrow>
   a_weight arc = parseInteger (weight_text a) 1 \<and> 0 < a_weight arc"
  by (auto simp: arc_of_elem_def Let_def split: option.split_asm if_split_asm)

lemma collect_arc_elems_weight_error:
  "collect_arc_elems xs arc_map = Inl (ArcWeightNotPositive aid w) \<Longrightarrow>
   \<exists>a \<in> set xs. get_attr a ''id'' = Some aid \<and>
     (\<exists>t. weight_text a = Some t \<and> py_int (py_strip t) = Some w) \<and> w \<le> 0"
proof (induction xs arbitrary: arc_map)
  case Nil
  then show ?case by simp
next
  case (Cons a xs)
  show ?case
  proof (cases "arc_of_elem a arc_map")
    case (Inl e)
    with Cons.prems have "arc_of_elem a arc_map = Inl (ArcWeightNotPositive aid w)" by simp
    then show ?thesis unfolding arc_of_elem_weight_error by auto
  next
    case (Inr arc)
    with Cons.prems Cons.IH show ?thesis by auto
  qed
qed

lemma collect_arc_elems_Inr_weights:
  "collect_arc_elems xs arc_map = Inr res \<Longrightarrow>
   \<forall>a \<in> set xs. 0 < parseInteger (weight_text a) 1"
proof (induction xs arbitrary: arc_map)
  case Nil
  then show ?case by simp
next
  case (Cons a xs)
  from Cons.prems obtain arc where arc: "arc_of_elem a arc_map = Inr arc"
    and rest: "collect_arc_elems xs (AList.update (a_id arc) arc arc_map) = Inr res"
    by (auto split: sum.split_asm)
  from arc_of_elem_Inr_weight [OF arc] Cons.IH [OF rest] show ?case by simp
qed

lemma linked_net_Inr_weights:
  "linked_net root = Inr net \<Longrightarrow>
   \<exists>net_elem. find_child (strip_namespace root) ''net'' = Some net_elem \<and>
     (\<forall>a \<in> set (findall net_elem ''arc''). 0 < parseInteger (weight_text a) 1)"
  unfolding linked_net_def
  by (auto split: option.split_asm sum.split_asm prod.split_asm
      dest!: collect_arc_elems_Inr_weights)

subsection \<open>What the linking loop changes\<close>

lemma map_fst_map_entry: "map fst (AList.map_entry k f xs) = map fst xs"
  by (induction xs) auto

lemma map_entry_preserves:
  "(\<And>v. g (f v) = g v) \<Longrightarrow>
   map (\<lambda>(k, v). (k, g v)) (AList.map_entry n f xs) = map (\<lambda>(k, v). (k, g v)) xs"
  by (induction xs) auto

lemma map_entry_member:
  "(k, v') \<in> set (AList.map_entry n f xs) \<Longrightarrow>
   \<exists>v. (k, v) \<in> set xs \<and> (v' = v \<or> (k = n \<and> v' = f v))"
  by (induction xs) (auto split: if_split_asm)

text \<open>One turn of the loop: the arc \<open>aid\<close> from \<open>src\<close> to \<open>tgt\<close> is attached.\<close>

definition attach ::
  "string \<Rightarrow> string \<Rightarrow> string \<Rightarrow> (string \<times> Place) list \<times> (string \<times> Transition) list \<Rightarrow>
   (string \<times> Place) list \<times> (string \<times> Transition) list" where
  "attach src tgt aid nodes = attach_incoming tgt aid (attach_outgoing src aid nodes)"

lemma attach_keys:
  "map fst (fst (attach src tgt aid nodes)) = map fst (fst nodes) \<and>
   map fst (snd (attach src tgt aid nodes)) = map fst (snd nodes)"
  by (cases nodes)
    (simp add: attach_def attach_incoming_def attach_outgoing_def map_fst_map_entry)

lemma attach_place_keys:
  "fst ` set (fst (attach src tgt aid nodes)) = fst ` set (fst nodes)"
proof -
  have "set (map fst (fst (attach src tgt aid nodes))) = set (map fst (fst nodes))"
    by (simp only: attach_keys)
  then show ?thesis by simp
qed

lemma attach_markings:
  "map (\<lambda>(k, p). (k, p_initial_marking p)) (fst (attach src tgt aid nodes)) =
   map (\<lambda>(k, p). (k, p_initial_marking p)) (fst nodes)"
  by (cases nodes)
    (simp add: attach_def attach_incoming_def attach_outgoing_def map_entry_preserves
      map_fst_map_entry)

lemma attach_outgoing_transition:
  assumes "(k, t1) \<in> set (snd (attach_outgoing src aid nodes))"
  shows "\<exists>t. (k, t) \<in> set (snd nodes) \<and>
     (t1 = t \<or> (k = src \<and> k \<notin> fst ` set (fst nodes) \<and>
        t1 = t\<lparr>t_outgoing := t_outgoing t @ [aid]\<rparr>))"
proof (cases nodes)
  case (Pair ps ts)
  show ?thesis
  proof (cases "src \<in> fst ` set ps")
    case True
    with assms Pair show ?thesis by (auto simp: attach_outgoing_def)
  next
    case False
    with assms Pair have
      "(k, t1) \<in> set (AList.map_entry src (\<lambda>t. t\<lparr>t_outgoing := t_outgoing t @ [aid]\<rparr>) ts)"
      by (simp add: attach_outgoing_def)
    from map_entry_member [OF this] False Pair show ?thesis by auto
  qed
qed

lemma attach_incoming_transition:
  assumes "(k, t1) \<in> set (snd (attach_incoming tgt aid nodes))"
  shows "\<exists>t. (k, t) \<in> set (snd nodes) \<and>
     (t1 = t \<or> (k = tgt \<and> k \<notin> fst ` set (fst nodes) \<and>
        t1 = t\<lparr>t_incoming := t_incoming t @ [aid]\<rparr>))"
proof (cases nodes)
  case (Pair ps ts)
  show ?thesis
  proof (cases "tgt \<in> fst ` set ps")
    case True
    with assms Pair show ?thesis by (auto simp: attach_incoming_def)
  next
    case False
    with assms Pair have
      "(k, t1) \<in> set (AList.map_entry tgt (\<lambda>t. t\<lparr>t_incoming := t_incoming t @ [aid]\<rparr>) ts)"
      by (simp add: attach_incoming_def)
    from map_entry_member [OF this] False Pair show ?thesis by auto
  qed
qed

lemma attach_outgoing_place_keys:
  "fst ` set (fst (attach_outgoing src aid nodes)) = fst ` set (fst nodes)"
proof -
  have "map fst (fst (attach_outgoing src aid nodes)) = map fst (fst nodes)"
    by (cases nodes) (simp add: attach_outgoing_def map_fst_map_entry)
  then have "set (map fst (fst (attach_outgoing src aid nodes))) = set (map fst (fst nodes))"
    by simp
  then show ?thesis by simp
qed

text \<open>
  What one turn does to a transition: its lists grow by the arc only where the arc names
  it and it is not a place; a transition whose id is a place id is left as it is.
\<close>

definition grown ::
  "string set \<Rightarrow> (string \<times> Arc) list \<Rightarrow> string \<Rightarrow> Transition \<Rightarrow> Transition \<Rightarrow> bool" where
  "grown P arc_map k t t' =
     (set (t_incoming t') \<subseteq> set (t_incoming t) \<union>
        {aid. \<exists>arc. (aid, arc) \<in> set arc_map \<and> a_target arc = k \<and> k \<notin> P} \<and>
      set (t_outgoing t') \<subseteq> set (t_outgoing t) \<union>
        {aid. \<exists>arc. (aid, arc) \<in> set arc_map \<and> a_source arc = k \<and> k \<notin> P} \<and>
      (k \<in> P \<longrightarrow> t' = t))"

lemma grown_refl: "grown P arc_map k t t"
  by (simp add: grown_def)

lemma grown_trans:
  "grown P [(aid, arc)] k t t1 \<Longrightarrow> grown P rest k t1 t' \<Longrightarrow> grown P ((aid, arc) # rest) k t t'"
  unfolding grown_def by (auto; blast)

lemma attach_transition:
  assumes "(k, t1) \<in> set (snd (attach (a_source arc) (a_target arc) aid nodes))"
  shows "\<exists>t. (k, t) \<in> set (snd nodes) \<and> grown (fst ` set (fst nodes)) [(aid, arc)] k t t1"
proof -
  let ?mid = "attach_outgoing (a_source arc) aid nodes"
  from assms have "(k, t1) \<in> set (snd (attach_incoming (a_target arc) aid ?mid))"
    by (simp add: attach_def)
  from attach_incoming_transition [OF this] obtain t2 where
    t2: "(k, t2) \<in> set (snd ?mid)" and
    s2: "t1 = t2 \<or> (k = a_target arc \<and> k \<notin> fst ` set (fst ?mid) \<and>
        t1 = t2\<lparr>t_incoming := t_incoming t2 @ [aid]\<rparr>)"
    by blast
  from attach_outgoing_transition [OF t2] obtain t where
    t: "(k, t) \<in> set (snd nodes)" and
    s1: "t2 = t \<or> (k = a_source arc \<and> k \<notin> fst ` set (fst nodes) \<and>
        t2 = t\<lparr>t_outgoing := t_outgoing t @ [aid]\<rparr>)"
    by blast
  have keys: "fst ` set (fst ?mid) = fst ` set (fst nodes)"
    by (rule attach_outgoing_place_keys)
  from s1 s2 have "grown (fst ` set (fst nodes)) [(aid, arc)] k t t1"
    unfolding keys grown_def by auto
  with t show ?thesis by blast
qed

lemma link_arcs_Inr:
  "link_arcs arc_map nodes = Inr nodes' \<Longrightarrow>
   map fst (fst nodes') = map fst (fst nodes) \<and>
   map fst (snd nodes') = map fst (snd nodes) \<and>
   map (\<lambda>(k, p). (k, p_initial_marking p)) (fst nodes') =
     map (\<lambda>(k, p). (k, p_initial_marking p)) (fst nodes) \<and>
   (\<forall>(k, t') \<in> set (snd nodes').
      \<exists>t. (k, t) \<in> set (snd nodes) \<and> grown (fst ` set (fst nodes)) arc_map k t t')"
proof (induction arc_map arbitrary: nodes)
  case Nil
  then show ?case by (auto intro: grown_refl)
next
  case (Cons x rest)
  obtain aid arc where x: "x = (aid, arc)" by (cases x)
  let ?mid = "attach (a_source arc) (a_target arc) aid nodes"
  from Cons.prems have rest: "link_arcs rest ?mid = Inr nodes'"
    unfolding x by (simp add: attach_def split: if_split_asm)
  note ih = Cons.IH [OF rest]
  note k = attach_keys [of "a_source arc" "a_target arc" aid nodes]
  have pk: "fst ` set (fst ?mid) = fst ` set (fst nodes)" by (rule attach_place_keys)
  have "\<forall>(k, t') \<in> set (snd nodes').
      \<exists>t. (k, t) \<in> set (snd nodes) \<and> grown (fst ` set (fst nodes)) (x # rest) k t t'"
  proof (intro ballI, clarify)
    fix k t'
    assume "(k, t') \<in> set (snd nodes')"
    with ih obtain t1 where t1: "(k, t1) \<in> set (snd ?mid)"
      and g1: "grown (fst ` set (fst ?mid)) rest k t1 t'"
      by blast
    from attach_transition [OF t1] obtain t where t: "(k, t) \<in> set (snd nodes)"
      and g: "grown (fst ` set (fst nodes)) [(aid, arc)] k t t1"
      by blast
    from g g1 have "grown (fst ` set (fst nodes)) ((aid, arc) # rest) k t t'"
      unfolding pk by (rule grown_trans)
    with t show "\<exists>t. (k, t) \<in> set (snd nodes) \<and> grown (fst ` set (fst nodes)) (x # rest) k t t'"
      unfolding x by blast
  qed
  moreover from ih k have "map fst (fst nodes') = map fst (fst nodes)"
    "map fst (snd nodes') = map fst (snd nodes)" by simp_all
  moreover from ih attach_markings [of "a_source arc" "a_target arc" aid nodes]
  have "map (\<lambda>(k, p). (k, p_initial_marking p)) (fst nodes') =
     map (\<lambda>(k, p). (k, p_initial_marking p)) (fst nodes)" by simp
  ultimately show ?case by blast
qed

text \<open>The parts of a net that the parser has linked, in terms of the elements of the file.\<close>

lemma linked_net_Inr:
  assumes "linked_net root = Inr net"
  shows "\<exists>net_elem.
     find_child (strip_namespace root) ''net'' = Some net_elem \<and>
     collect_place_elems (findall net_elem ''place'') [] =
       Inr (map place_entry (findall net_elem ''place'')) \<and>
     collect_transition_elems (findall net_elem ''transition'') [] =
       Inr (map transition_entry (findall net_elem ''transition'')) \<and>
     collect_arc_elems (findall net_elem ''arc'') [] =
       Inr (map arc_entry (findall net_elem ''arc'')) \<and>
     link_arcs (map arc_entry (findall net_elem ''arc''))
       (map place_entry (findall net_elem ''place''),
        map transition_entry (findall net_elem ''transition'')) =
       Inr (places net, transitions net) \<and>
     arcs net = map arc_entry (findall net_elem ''arc'') \<and>
     net_id net = get_attr net_elem ''id''"
proof -
  from assms obtain net_elem ps ts xs ps' ts' where
    ne: "find_child (strip_namespace root) ''net'' = Some net_elem" and
    ps: "collect_place_elems (findall net_elem ''place'') [] = Inr ps" and
    ts: "collect_transition_elems (findall net_elem ''transition'') [] = Inr ts" and
    xs: "collect_arc_elems (findall net_elem ''arc'') [] = Inr xs" and
    ln: "link_arcs xs (ps, ts) = Inr (ps', ts')" and
    net: "net = \<lparr>net_id = get_attr net_elem ''id'', places = ps', transitions = ts',
                  arcs = xs\<rparr>"
    unfolding linked_net_def
    by (auto split: option.split_asm sum.split_asm prod.split_asm)
  from collect_place_elems_Inr [OF ps] have "ps = map place_entry (findall net_elem ''place'')"
    by simp
  moreover from collect_transition_elems_Inr [OF ts]
  have "ts = map transition_entry (findall net_elem ''transition'')" by simp
  moreover from collect_arc_elems_Inr [OF xs]
  have "xs = map arc_entry (findall net_elem ''arc'')" by simp
  ultimately show ?thesis using ne ps ts xs ln net by auto
qed

lemma linked_net_distinct:
  assumes "linked_net root = Inr net"
  shows "distinct (map fst (places net)) \<and> distinct (map fst (transitions net)) \<and>
     distinct (map fst (arcs net))"
proof -
  from linked_net_Inr [OF assms] obtain net_elem where
    ps: "collect_place_elems (findall net_elem ''place'') [] =
       Inr (map place_entry (findall net_elem ''place''))" and
    ts: "collect_transition_elems (findall net_elem ''transition'') [] =
       Inr (map transition_entry (findall net_elem ''transition''))" and
    xs: "collect_arc_elems (findall net_elem ''arc'') [] =
       Inr (map arc_entry (findall net_elem ''arc''))" and
    ln: "link_arcs (map arc_entry (findall net_elem ''arc''))
       (map place_entry (findall net_elem ''place''),
        map transition_entry (findall net_elem ''transition'')) =
       Inr (places net, transitions net)" and
    ar: "arcs net = map arc_entry (findall net_elem ''arc'')"
    by blast
  from collect_place_elems_Inr [OF ps]
  have "distinct (map fst (map place_entry (findall net_elem ''place'')))" by simp
  moreover from collect_transition_elems_Inr [OF ts]
  have "distinct (map fst (map transition_entry (findall net_elem ''transition'')))" by simp
  moreover from collect_arc_elems_Inr [OF xs]
  have "distinct (map fst (map arc_entry (findall net_elem ''arc'')))" by simp
  ultimately show ?thesis using link_arcs_Inr [OF ln] ar by simp
qed

subsection \<open>The linked net and the elements of the file\<close>

lemma linked_net_values:
  assumes "linked_net root = Inr net"
  shows "\<exists>net_elem.
     find_child (strip_namespace root) ''net'' = Some net_elem \<and>
     map fst (places net) = map elem_id (findall net_elem ''place'') \<and>
     map fst (transitions net) = map elem_id (findall net_elem ''transition'') \<and>
     map (\<lambda>(k, p). (k, p_initial_marking p)) (places net) =
       map (\<lambda>p. (elem_id p, parseInteger (initial_marking_text p) 0))
         (findall net_elem ''place'') \<and>
     map (\<lambda>(k, a). (k, a_weight a)) (arcs net) =
       map (\<lambda>a. (elem_id a, parseInteger (weight_text a) 1)) (findall net_elem ''arc'')"
proof -
  from linked_net_Inr [OF assms] obtain net_elem where
    ne: "find_child (strip_namespace root) ''net'' = Some net_elem" and
    ln: "link_arcs (map arc_entry (findall net_elem ''arc''))
       (map place_entry (findall net_elem ''place''),
        map transition_entry (findall net_elem ''transition'')) =
       Inr (places net, transitions net)" and
    ar: "arcs net = map arc_entry (findall net_elem ''arc'')"
    by blast
  note l = link_arcs_Inr [OF ln]
  from l have "map fst (places net) = map elem_id (findall net_elem ''place'')"
    by (simp add: place_entry_def comp_def)
  moreover from l have "map fst (transitions net) = map elem_id (findall net_elem ''transition'')"
    by (simp add: transition_entry_def comp_def)
  moreover from l have "map (\<lambda>(k, p). (k, p_initial_marking p)) (places net) =
       map (\<lambda>p. (elem_id p, parseInteger (initial_marking_text p) 0))
         (findall net_elem ''place'')"
    by (simp add: place_entry_def comp_def)
  moreover from ar have "map (\<lambda>(k, a). (k, a_weight a)) (arcs net) =
       map (\<lambda>a. (elem_id a, parseInteger (weight_text a) 1)) (findall net_elem ''arc'')"
    by (simp add: arc_entry_def comp_def)
  ultimately show ?thesis using ne by blast
qed

lemma bad_markings_values:
  "bad_markings place_map =
   filter (\<lambda>(pid, m). m \<noteq> 0 \<and> m \<noteq> 1) (map (\<lambda>(k, p). (k, p_initial_marking p)) place_map)"
  by (induction place_map) (auto simp: bad_markings_def)

lemma heavy_arcs_values:
  "heavy_arcs arc_map =
   map fst (filter (\<lambda>(aid, w). w \<noteq> 1) (map (\<lambda>(k, a). (k, a_weight a)) arc_map))"
  by (induction arc_map) (auto simp: heavy_arcs_def)

lemma linked_transition:
  assumes ln: "linked_net root = Inr net" and kt: "(k, t) \<in> set (transitions net)"
  shows "grown (fst ` set (places net)) (arcs net) k
     \<lparr>t_id = k, t_name = t_name t, t_incoming = [], t_outgoing = []\<rparr> t"
proof -
  from linked_net_Inr [OF ln] obtain net_elem where
    l: "link_arcs (map arc_entry (findall net_elem ''arc''))
       (map place_entry (findall net_elem ''place''),
        map transition_entry (findall net_elem ''transition'')) =
       Inr (places net, transitions net)" and
    ar: "arcs net = map arc_entry (findall net_elem ''arc'')"
    by blast
  note r = link_arcs_Inr [OF l]
  from r have m: "map fst (places net) = map fst (map place_entry (findall net_elem ''place''))"
    by simp
  have "fst ` set (places net) = set (map fst (places net))"
    by (rule list.set_map [symmetric])
  also have "\<dots> = set (map fst (map place_entry (findall net_elem ''place'')))"
    by (simp only: m)
  also have "\<dots> = fst ` set (map place_entry (findall net_elem ''place''))"
    by (rule list.set_map)
  finally have keys:
    "fst ` set (map place_entry (findall net_elem ''place'')) = fst ` set (places net)"
    by (rule sym)
  from r kt obtain t0 where
    t0: "(k, t0) \<in> set (map transition_entry (findall net_elem ''transition''))" and
    g: "grown (fst ` set (map place_entry (findall net_elem ''place'')))
          (map arc_entry (findall net_elem ''arc'')) k t0 t"
    by fastforce
  from t0 have e: "t_id t0 = k" "t_incoming t0 = []" "t_outgoing t0 = []"
    by (auto simp: transition_entry_def)
  let ?t1 = "\<lparr>t_id = k, t_name = t_name t, t_incoming = [], t_outgoing = []\<rparr>"
  from g e show ?thesis unfolding keys ar [symmetric] grown_def by auto
qed

lemma shared_id_transition_isolated:
  assumes "linked_net root = Inr net" "(k, t) \<in> set (transitions net)"
    "k \<in> fst ` set (places net)"
  shows "t_incoming t = [] \<and> t_outgoing t = []"
  using linked_transition [OF assms(1,2)] assms(3) by (auto simp: grown_def)

lemma transition_incidence:
  assumes "linked_net root = Inr net" "(k, t) \<in> set (transitions net)"
  shows "(aid \<in> set (t_incoming t) \<longrightarrow>
            (\<exists>arc. (aid, arc) \<in> set (arcs net) \<and> a_target arc = k \<and>
               k \<notin> fst ` set (places net))) \<and>
         (aid \<in> set (t_outgoing t) \<longrightarrow>
            (\<exists>arc. (aid, arc) \<in> set (arcs net) \<and> a_source arc = k \<and>
               k \<notin> fst ` set (places net)))"
  using linked_transition [OF assms] by (auto simp: grown_def)

lemma isolated_nodes_transition:
  "(k, t) \<in> set transition_map \<Longrightarrow> t_incoming t = [] \<Longrightarrow> t_outgoing t = [] \<Longrightarrow>
   (''transition'', k) \<in> set (isolated_nodes place_map transition_map)"
  by (force simp: isolated_nodes_def)

lemma parsed_ids_disjoint:
  assumes "parsePNML root r = Inr net"
  shows "fst ` set (places net) \<inter> fst ` set (transitions net) = {}"
proof (rule ccontr)
  assume "fst ` set (places net) \<inter> fst ` set (transitions net) \<noteq> {}"
  then obtain k where k: "k \<in> fst ` set (places net)" and "k \<in> fst ` set (transitions net)"
    by blast
  then obtain t where t: "(k, t) \<in> set (transitions net)"
    by force
  from parsePNML_Inr [OF assms] have ln: "linked_net root = Inr net"
    and iso: "isolated_nodes (places net) (transitions net) = []" by simp_all
  from shared_id_transition_isolated [OF ln t k]
  have "(''transition'', k) \<in> set (isolated_nodes (places net) (transitions net))"
    using t by (auto intro: isolated_nodes_transition)
  with iso show False by simp
qed

subsection \<open>The three validation errors\<close>

lemma parsePNML_isolated_iff:
  "parsePNML root r = Inl (IsolatedNodes ns) \<longleftrightarrow>
   (\<exists>net. linked_net root = Inr net \<and> ns = isolated_nodes (places net) (transitions net) \<and>
      ns \<noteq> [])"
proof (cases "linked_net root")
  case (Inl e)
  from linked_net_Inl [OF Inl] have "e \<noteq> IsolatedNodes ns"
    by (auto simp: construction_error_def)
  with Inl show ?thesis by (simp add: parsePNML_def)
next
  case (Inr net)
  then show ?thesis
    by (auto simp: parsePNML_def check_1safe_def)
qed

lemma parsePNML_nonbinary_iff:
  "parsePNML root r = Inl (NonBinaryMarkings bs) \<longleftrightarrow>
   r \<and> (\<exists>net. linked_net root = Inr net \<and> isolated_nodes (places net) (transitions net) = [] \<and>
      bs = bad_markings (places net) \<and> bs \<noteq> [])"
proof (cases "linked_net root")
  case (Inl e)
  from linked_net_Inl [OF Inl] have "e \<noteq> NonBinaryMarkings bs"
    by (auto simp: construction_error_def)
  with Inl show ?thesis by (simp add: parsePNML_def)
next
  case (Inr net)
  then show ?thesis
    by (auto simp: parsePNML_def check_1safe_def)
qed

lemma parsePNML_heavy_iff:
  "parsePNML root r = Inl (ArcWeightsNotOne hs) \<longleftrightarrow>
   r \<and> (\<exists>net. linked_net root = Inr net \<and> isolated_nodes (places net) (transitions net) = [] \<and>
      bad_markings (places net) = [] \<and> hs = heavy_arcs (arcs net) \<and> hs \<noteq> [])"
proof (cases "linked_net root")
  case (Inl e)
  from linked_net_Inl [OF Inl] have "e \<noteq> ArcWeightsNotOne hs"
    by (auto simp: construction_error_def)
  with Inl show ?thesis by (simp add: parsePNML_def)
next
  case (Inr net)
  then show ?thesis
    by (auto simp: parsePNML_def check_1safe_def)
qed

lemma parsePNML_Inr_iff:
  "parsePNML root r = Inr net \<longleftrightarrow>
   linked_net root = Inr net \<and> isolated_nodes (places net) (transitions net) = [] \<and>
   (r \<longrightarrow> bad_markings (places net) = [] \<and> heavy_arcs (arcs net) = [])"
  by (cases "linked_net root") (auto simp: parsePNML_def check_1safe_def)

lemma bad_markings_Nil:
  "bad_markings place_map = [] \<longleftrightarrow>
   (\<forall>(k, p) \<in> set place_map. p_initial_marking p = 0 \<or> p_initial_marking p = 1)"
  by (auto simp: bad_markings_def filter_empty_conv)

lemma heavy_arcs_Nil:
  "heavy_arcs arc_map = [] \<longleftrightarrow> (\<forall>(k, a) \<in> set arc_map. a_weight a = 1)"
  by (auto simp: heavy_arcs_def filter_empty_conv)

text \<open>The two lists of the 1-safe check, read from the elements of the net.\<close>

definition bad_marking_texts :: "xml \<Rightarrow> (string \<times> int) list" where
  "bad_marking_texts net_elem =
     filter (\<lambda>(pid, m). m \<noteq> 0 \<and> m \<noteq> 1)
       (map (\<lambda>p. (elem_id p, parseInteger (initial_marking_text p) 0))
          (findall net_elem ''place''))"

definition heavy_weight_texts :: "xml \<Rightarrow> string list" where
  "heavy_weight_texts net_elem =
     map fst (filter (\<lambda>(aid, w). w \<noteq> 1)
       (map (\<lambda>a. (elem_id a, parseInteger (weight_text a) 1)) (findall net_elem ''arc'')))"

lemma linked_net_checks:
  assumes "linked_net root = Inr net"
  shows "\<exists>net_elem. find_child (strip_namespace root) ''net'' = Some net_elem \<and>
     bad_markings (places net) = bad_marking_texts net_elem \<and>
     heavy_arcs (arcs net) = heavy_weight_texts net_elem"
proof -
  from linked_net_values [OF assms] obtain net_elem where
    ne: "find_child (strip_namespace root) ''net'' = Some net_elem" and
    pm: "map (\<lambda>(k, p). (k, p_initial_marking p)) (places net) =
       map (\<lambda>p. (elem_id p, parseInteger (initial_marking_text p) 0))
         (findall net_elem ''place'')" and
    am: "map (\<lambda>(k, a). (k, a_weight a)) (arcs net) =
       map (\<lambda>a. (elem_id a, parseInteger (weight_text a) 1)) (findall net_elem ''arc'')"
    by blast
  have "bad_markings (places net) = bad_marking_texts net_elem"
    unfolding bad_markings_values bad_marking_texts_def pm ..
  moreover have "heavy_arcs (arcs net) = heavy_weight_texts net_elem"
    unfolding heavy_arcs_values heavy_weight_texts_def am ..
  ultimately show ?thesis using ne by blast
qed

section \<open>Example nets\<close>

definition mk_place :: "string \<Rightarrow> int \<Rightarrow> string list \<Rightarrow> string list \<Rightarrow> string \<times> Place" where
  "mk_place pid m inc out =
     (pid, \<lparr>p_id = pid, p_name = None, p_initial_marking = m, p_incoming = inc, p_outgoing = out\<rparr>)"

definition mk_transition :: "string \<Rightarrow> string list \<Rightarrow> string list \<Rightarrow> string \<times> Transition" where
  "mk_transition tid inc out =
     (tid, \<lparr>t_id = tid, t_name = None, t_incoming = inc, t_outgoing = out\<rparr>)"

definition mk_arc :: "string \<Rightarrow> string \<Rightarrow> string \<Rightarrow> string \<times> Arc" where
  "mk_arc aid src tgt = (aid, \<lparr>a_id = aid, a_source = src, a_target = tgt, a_weight = 1\<rparr>)"

text \<open>Scenario D of the specification: one token that alternates between two places.\<close>

definition scenario_D :: PetriNet where
  "scenario_D = \<lparr>net_id = None,
     places = [mk_place ''p1'' 1 [''a4''] [''a1''], mk_place ''p2'' 0 [''a2''] [''a3'']],
     transitions = [mk_transition ''t1'' [''a1''] [''a2''], mk_transition ''t2'' [''a3''] [''a4'']],
     arcs = [mk_arc ''a1'' ''p1'' ''t1'', mk_arc ''a2'' ''t1'' ''p2'',
             mk_arc ''a3'' ''p2'' ''t2'', mk_arc ''a4'' ''t2'' ''p1'']\<rparr>"

text \<open>
  Two transitions that both move the token from \<open>p1\<close> to \<open>p2\<close>, so that the marking
  \<open>{p2}\<close> is queued twice; the ids \<open>t10\<close> and \<open>t2\<close> sort as strings, not as numbers.
\<close>

definition twice_net :: PetriNet where
  "twice_net = \<lparr>net_id = None,
     places = [mk_place ''p1'' 1 [] [''a1'', ''a3''], mk_place ''p2'' 0 [''a2'', ''a4''] []],
     transitions = [mk_transition ''t2'' [''a3''] [''a4''], mk_transition ''t10'' [''a1''] [''a2'']],
     arcs = [mk_arc ''a1'' ''p1'' ''t10'', mk_arc ''a2'' ''t10'' ''p2'',
             mk_arc ''a3'' ''p1'' ''t2'', mk_arc ''a4'' ''t2'' ''p2'']\<rparr>"

subsection \<open>Example documents\<close>

definition text_elem :: "string \<Rightarrow> string \<Rightarrow> xml" where
  "text_elem tag s = Element tag [] None [Element ''text'' [] (Some s) []]"

definition place_elem :: "string \<Rightarrow> string \<Rightarrow> xml" where
  "place_elem pid m = Element ''place'' [(''id'', pid)] None [text_elem ''initialMarking'' m]"

definition transition_elem :: "string \<Rightarrow> xml" where
  "transition_elem tid = Element ''transition'' [(''id'', tid)] None []"

definition arc_elem :: "string \<Rightarrow> string \<Rightarrow> string \<Rightarrow> xml" where
  "arc_elem aid src tgt =
     Element ''arc'' [(''id'', aid), (''source'', src), (''target'', tgt)] None []"

definition weighted_arc_elem :: "string \<Rightarrow> string \<Rightarrow> string \<Rightarrow> string \<Rightarrow> xml" where
  "weighted_arc_elem aid src tgt w =
     Element ''arc'' [(''id'', aid), (''source'', src), (''target'', tgt)] None
       [text_elem ''inscription'' w]"

definition pnml_doc :: "xml list \<Rightarrow> xml" where
  "pnml_doc es = Element ''pnml'' [] None [Element ''net'' [(''id'', ''n1'')] None es]"

section \<open>The claims about the exploration\<close>

text \<open>
  C1. At a processed marking \<open>M\<close> the loop over the transitions appends to the container
  exactly the markings \<open>fire M (preset t) (postset t)\<close> of the transitions \<open>t\<close> with
  \<open>isEnabled M (preset t)\<close>, that is \<open>preset t \<subseteq> M\<close>, in the order of the transition list
  (those already visited are not queued), and \<open>fire\<close> is \<open>(M - preset t) \<union> postset t\<close>:
  a place in both the preset and the postset of a fired transition stays marked.
\<close>

theorem fire_enabled_firing_rule:
  assumes "fire_enabled pre post M visited tids container = Inr container'"
  shows "container' = container @
           filter (\<lambda>N. N \<notin> visited)
             (map (\<lambda>tid. fire M (lookup_set pre tid) (lookup_set post tid))
                (filter (\<lambda>tid. isEnabled M (lookup_set pre tid)) tids)) \<and>
         (\<forall>tid. isEnabled M (lookup_set pre tid) = (lookup_set pre tid |\<subseteq>| M) \<and>
            fire M (lookup_set pre tid) (lookup_set post tid) =
              (M |-| lookup_set pre tid) |\<union>| lookup_set post tid \<and>
            lookup_set pre tid |\<inter>| lookup_set post tid |\<subseteq>|
              fire M (lookup_set pre tid) (lookup_set post tid))"
proof -
  have "container' = container @ filter (\<lambda>N. N \<notin> visited) (successors pre post M tids)"
    using assms by (rule fire_enabled_InrD)
  then show ?thesis by (auto simp: successors_def isEnabled_def fire_def)
qed

theorem fire_enabled_firing_rule_witness:
  "fire_enabled [(''t1'', {|''p1''|})] [(''t1'', {|''p1'', ''p2''|})] {|''p1''|} {{|''p1''|}}
     [''t1''] [] = Inr [{|''p1'', ''p2''|}] \<and>
   lookup_set [(''t1'', {|''p1''|})] ''t1'' |\<subseteq>| {|''p1''|} \<and>
   ''p1'' |\<in>| lookup_set [(''t1'', {|''p1''|})] ''t1'' |\<inter>|
     lookup_set [(''t1'', {|''p1'', ''p2''|})] ''t1'' \<and>
   isEnabled {|''p1''|} (lookup_set [(''t1'', {|''p1''|})] ''t1'') \<and>
   ''p1'' |\<in>| fire {|''p1''|} (lookup_set [(''t1'', {|''p1''|})] ''t1'')
     (lookup_set [(''t1'', {|''p1'', ''p2''|})] ''t1'')"
proof -
  have h: "fire_enabled [(''t1'', {|''p1''|})] [(''t1'', {|''p1'', ''p2''|})] {|''p1''|}
     {{|''p1''|}} [''t1''] [] = Inr [{|''p1'', ''p2''|}]"
    by code_simp
  have sub: "lookup_set [(''t1'', {|''p1''|})] ''t1'' |\<subseteq>| {|''p1''|}"
    by (simp add: lookup_set_def)
  have both: "''p1'' |\<in>| lookup_set [(''t1'', {|''p1''|})] ''t1'' |\<inter>|
     lookup_set [(''t1'', {|''p1'', ''p2''|})] ''t1''"
    by (simp add: lookup_set_def)
  note r = fire_enabled_firing_rule [OF h, THEN conjunct2, THEN spec, of "''t1''"]
  from r sub have en: "isEnabled {|''p1''|} (lookup_set [(''t1'', {|''p1''|})] ''t1'')"
    by blast
  from r both have "''p1'' |\<in>| fire {|''p1''|} (lookup_set [(''t1'', {|''p1''|})] ''t1'')
     (lookup_set [(''t1'', {|''p1'', ''p2''|})] ''t1'')"
    by blast
  with h sub both en show ?thesis by blast
qed

text \<open>
  C2. Breadth-first and depth-first exploration of a net return the same set of markings
  (or fail alike on an arc id that the net does not hold).
\<close>

theorem bfs_dfs_same_set:
  "(\<exists>e. compute_reachable_markings petrinet False = Inl e \<and>
        compute_reachable_markings petrinet True = Inl e) \<or>
   (\<exists>bfs dfs. compute_reachable_markings petrinet False = Inr bfs \<and>
        compute_reachable_markings petrinet True = Inr dfs \<and> set bfs = set dfs)"
proof (cases rule: compute_cases [where petrinet = petrinet and dfs = False])
  case (KeyError e)
  then show ?thesis by (auto simp: compute_reachable_markings_def)
next
  case bfs: (Result pre post ms)
  show ?thesis
  proof (cases rule: compute_cases [where petrinet = petrinet and dfs = True])
    case (KeyError e)
    with bfs show ?thesis by simp
  next
    case dfs: (Result pre' post' ms')
    with bfs have "pre' = pre" "post' = post" by simp_all
    with explore_reach [OF bfs(2)] explore_reach [OF dfs(2)] have "set ms = set ms'" by simp
    with bfs(3) dfs(3) show ?thesis by simp
  qed
qed

theorem bfs_dfs_same_set_witness:
  "compute_reachable_markings scenario_D False = Inr [{|''p1''|}, {|''p2''|}] \<and>
   (\<exists>dfs. compute_reachable_markings scenario_D True = Inr dfs \<and>
      set [{|''p1''|}, {|''p2''|}] = set dfs)"
proof -
  have h: "compute_reachable_markings scenario_D False = Inr [{|''p1''|}, {|''p2''|}]"
    by code_simp
  show ?thesis
    using h bfs_dfs_same_set [of scenario_D] by auto
qed

text \<open>
  C3. The exploration is a total function: on every net it returns, either the sequence of
  markings, of at most \<open>2 ^ |places|\<close> entries, or the \<^verbatim>\<open>KeyError\<close> of an arc id in a
  transition's lists that the net does not hold. The cyclic net of scenario D is an
  instance.
\<close>

theorem compute_reachable_markings_terminates:
  "(\<exists>ms. compute_reachable_markings petrinet dfs = Inr ms \<and>
      length ms \<le> 2 ^ card (fst ` set (places petrinet))) \<or>
   (compute_reachable_markings petrinet dfs = Inl KeyError \<and> \<not> arcs_resolve petrinet)"
proof (cases rule: compute_cases [where petrinet = petrinet and dfs = dfs])
  case (KeyError e)
  then show ?thesis by (cases e) simp
next
  case (Result pre post ms)
  from compute_bound [OF Result(3)] Result(3) show ?thesis by simp
qed

theorem compute_reachable_markings_terminates_witness:
  "arcs_resolve scenario_D \<and>
   (\<exists>ms. compute_reachable_markings scenario_D True = Inr ms \<and>
      length ms \<le> 2 ^ card (fst ` set (places scenario_D))) \<and>
   compute_reachable_markings scenario_D True = Inr [{|''p1''|}, {|''p2''|}]"
proof -
  have h: "arcs_resolve scenario_D" by code_simp
  have v: "compute_reachable_markings scenario_D True = Inr [{|''p1''|}, {|''p2''|}]"
    by code_simp
  show ?thesis
    using h v compute_reachable_markings_terminates [of scenario_D True] by simp
qed

text \<open>
  C9. Every marking of the returned sequence holds only keys of the net's place map.
\<close>

theorem reachable_markings_within_places:
  assumes "compute_reachable_markings petrinet dfs = Inr ms" and "M \<in> set ms"
  shows "fset M \<subseteq> fst ` set (places petrinet)"
  using compute_places [OF assms(1)] assms(2) by blast

theorem reachable_markings_within_places_witness:
  "compute_reachable_markings scenario_D False = Inr [{|''p1''|}, {|''p2''|}] \<and>
   {|''p2''|} \<in> set [{|''p1''|}, {|''p2''|}] \<and>
   fset {|''p2''|} \<subseteq> fst ` set (places scenario_D)"
proof -
  have h: "compute_reachable_markings scenario_D False = Inr [{|''p1''|}, {|''p2''|}]"
    by code_simp
  have m: "{|''p2''|} \<in> set [{|''p1''|}, {|''p2''|}]" by simp
  show ?thesis
    using h m reachable_markings_within_places [OF h m] by simp
qed

text \<open>
  C4. On a net whose transition dictionary has each key once (as every dictionary has),
  the returned sequence is the one and only discovery sequence of the specification that
  starts from the frontier \<open>[M0]\<close> with nothing visited and tries the transitions in the
  ascending order of the set of their ids: a marking is appended when it is popped and not
  yet visited, a popped marking that is visited is dropped. The sequence starts with
  \<open>M0\<close> and holds every reachable marking exactly once, and nothing else. The frontier
  itself may hold one marking several times.
\<close>

theorem discovery_sequence:
  assumes "compute_reachable_markings petrinet dfs = Inr ms"
    and "distinct (map fst (transitions petrinet))"
  shows "(\<exists>pre post.
      build_pre_post petrinet (transitions petrinet) [] [] = Inr (pre, post) \<and>
      discovery pre post (sorted_list_of_set (fst ` set (transitions petrinet))) dfs {}
        [initial_marking_of petrinet] [] ms \<and>
      (\<forall>ms'. discovery pre post (sorted_list_of_set (fst ` set (transitions petrinet))) dfs {}
         [initial_marking_of petrinet] [] ms' \<longrightarrow> ms' = ms) \<and>
      set ms = reach pre post (sorted_list_of_set (fst ` set (transitions petrinet)))
         (initial_marking_of petrinet)) \<and>
    ms \<noteq> [] \<and> hd ms = initial_marking_of petrinet \<and> distinct ms \<and>
    (\<exists>pre post M visited tids container'.
       fire_enabled pre post M visited tids [] = Inr container' \<and> \<not> distinct container')"
proof (cases rule: compute_cases [where petrinet = petrinet and dfs = dfs])
  case (KeyError e)
  with assms show ?thesis by simp
next
  case (Result pre post ms')
  with assms(1) have ms: "ms' = ms" by simp
  let ?tids = "sorted_list_of_set (fst ` set (transitions petrinet))"
  have tids: "sort (map fst (transitions petrinet)) = ?tids"
    using assms(2) by (rule sort_keys_sorted_list_of_set)
  have ex: "explore pre post ?tids dfs {} [initial_marking_of petrinet] [] = Inr ms"
    using Result(2) ms tids by simp
  have d: "discovery pre post ?tids dfs {} [initial_marking_of petrinet] [] ms"
    using ex by (rule explore_discovery)
  have u: "\<forall>ms'. discovery pre post ?tids dfs {} [initial_marking_of petrinet] [] ms' \<longrightarrow> ms' = ms"
    using discovery_unique [OF d] by blast
  have r: "set ms = reach pre post ?tids (initial_marking_of petrinet)"
    using ex by (rule explore_reach)
  have h: "ms \<noteq> [] \<and> hd ms = initial_marking_of petrinet"
    using ex by (rule explore_starts_with_initial)
  have dist: "distinct ms" using assms(1) by (rule compute_distinct)
  have "fire_enabled [(''t2'', {|''p1''|}), (''t10'', {|''p1''|})]
     [(''t2'', {|''p2''|}), (''t10'', {|''p2''|})] {|''p1''|} {{|''p1''|}} [''t10'', ''t2''] [] =
     Inr [{|''p2''|}, {|''p2''|}]"
    by code_simp
  moreover have "\<not> distinct [{|''p2''|}, {|''p2''|} :: marking]" by simp
  ultimately have q: "\<exists>pre post M visited tids container'.
       fire_enabled pre post M visited tids [] = Inr container' \<and> \<not> distinct container'"
    by blast
  from Result(1) d u r h dist q show ?thesis by blast
qed

theorem discovery_sequence_witness:
  "compute_reachable_markings twice_net False = Inr [{|''p1''|}, {|''p2''|}] \<and>
   distinct (map fst (transitions twice_net)) \<and>
   map fst (transitions twice_net) = [''t2'', ''t10''] \<and>
   sorted_list_of_set (fst ` set (transitions twice_net)) = [''t10'', ''t2''] \<and>
   discovery [(''t2'', {|''p1''|}), (''t10'', {|''p1''|})]
     [(''t2'', {|''p2''|}), (''t10'', {|''p2''|})] [''t10'', ''t2''] False {}
     [{|''p1''|}] [] [{|''p1''|}, {|''p2''|}] \<and>
   hd [{|''p1''|}, {|''p2''|}] = initial_marking_of twice_net"
proof -
  have h: "compute_reachable_markings twice_net False = Inr [{|''p1''|}, {|''p2''|}]"
    by code_simp
  have k: "map fst (transitions twice_net) = [''t2'', ''t10'']"
    by code_simp
  have d: "distinct (map fst (transitions twice_net))"
    unfolding k by simp
  have s: "sorted_list_of_set (fst ` set (transitions twice_net)) = [''t10'', ''t2'']"
    by code_simp
  have b: "build_pre_post twice_net (transitions twice_net) [] [] =
     Inr ([(''t2'', {|''p1''|}), (''t10'', {|''p1''|})],
          [(''t2'', {|''p2''|}), (''t10'', {|''p2''|})])"
    by code_simp
  have m: "initial_marking_of twice_net = {|''p1''|}"
    by code_simp
  from discovery_sequence [OF h d]
  have "discovery [(''t2'', {|''p1''|}), (''t10'', {|''p1''|})]
     [(''t2'', {|''p2''|}), (''t10'', {|''p2''|})] [''t10'', ''t2''] False {}
     [{|''p1''|}] [] [{|''p1''|}, {|''p2''|}]"
    and "hd [{|''p1''|}, {|''p2''|}] = initial_marking_of twice_net"
    unfolding b s m by auto
  with h k d s show ?thesis by blast
qed

section \<open>The claims about the parser\<close>

text \<open>
  C8. An absent or unparsable number text is never an error. \<open>parseInteger\<close> returns the
  default for it, which is 0 for the initial marking of a place and 1 for the weight of an
  arc: a place element with a fresh id always makes a place, and an arc element with a
  fresh id, a source and a target whose inscription text is absent or unparsable always
  makes an arc of weight 1. The loop over the arcs stops with the error of a non-positive
  weight exactly at an arc whose text parses to an integer \<open>w \<le> 0\<close>, and the parser
  returns that error exactly when the places, the transitions and the arcs before such an
  arc were collected without error. In a returned net the markings and the weights are the
  values of \<open>parseInteger\<close> on the texts of the elements, in the order of the file.
\<close>

theorem numeric_text_is_permissive:
  "parseInteger None d = d \<and>
   (py_int (py_strip t) = None \<longrightarrow> parseInteger (Some t) d = d) \<and>
   (py_int (py_strip t) = Some n \<longrightarrow> parseInteger (Some t) d = n) \<and>
   (get_attr p ''id'' = Some pid \<and> pid \<notin> fst ` set place_map \<longrightarrow>
      (\<exists>pl. place_of_elem p place_map = Inr pl \<and>
         p_initial_marking pl = parseInteger (initial_marking_text p) 0)) \<and>
   (place_of_elem p place_map = Inl e \<longrightarrow> e = PlaceNoId \<or> (\<exists>pid. e = DuplicatePlaceId pid)) \<and>
   (get_attr a ''id'' = Some aid \<and> aid \<notin> fst ` set arc_map \<and>
    get_attr a ''source'' \<noteq> None \<and> get_attr a ''target'' \<noteq> None \<and>
    (weight_text a = None \<or> (\<exists>t. weight_text a = Some t \<and> py_int (py_strip t) = None)) \<longrightarrow>
      (\<exists>arc. arc_of_elem a arc_map = Inr arc \<and> a_weight arc = 1)) \<and>
   (arc_of_elem a arc_map = Inr arc \<longrightarrow>
      a_weight arc = parseInteger (weight_text a) 1 \<and> 0 < a_weight arc) \<and>
   (arc_of_elem a arc_map = Inl (ArcWeightNotPositive aid w) \<longleftrightarrow>
      get_attr a ''id'' = Some aid \<and> aid \<notin> fst ` set arc_map \<and>
      get_attr a ''source'' \<noteq> None \<and> get_attr a ''target'' \<noteq> None \<and>
      (\<exists>t. weight_text a = Some t \<and> py_int (py_strip t) = Some w) \<and> w \<le> 0) \<and>
   (parsePNML root r = Inl (ArcWeightNotPositive aid w) \<longleftrightarrow>
      (\<exists>net_elem place_map transition_map before x after arc_map.
         find_child (strip_namespace root) ''net'' = Some net_elem \<and>
         collect_place_elems (findall net_elem ''place'') [] = Inr place_map \<and>
         collect_transition_elems (findall net_elem ''transition'') [] = Inr transition_map \<and>
         findall net_elem ''arc'' = before @ x # after \<and>
         collect_arc_elems before [] = Inr arc_map \<and>
         get_attr x ''id'' = Some aid \<and> aid \<notin> fst ` set arc_map \<and>
         get_attr x ''source'' \<noteq> None \<and> get_attr x ''target'' \<noteq> None \<and>
         (\<exists>t. weight_text x = Some t \<and> py_int (py_strip t) = Some w) \<and> w \<le> 0)) \<and>
   (parsePNML root r = Inr net \<longrightarrow>
      (\<exists>net_elem. find_child (strip_namespace root) ''net'' = Some net_elem \<and>
         map (\<lambda>(k, p). (k, p_initial_marking p)) (places net) =
           map (\<lambda>p. (elem_id p, parseInteger (initial_marking_text p) 0))
             (findall net_elem ''place'') \<and>
         map (\<lambda>(k, a). (k, a_weight a)) (arcs net) =
           map (\<lambda>a. (elem_id a, parseInteger (weight_text a) 1)) (findall net_elem ''arc'') \<and>
         (\<forall>a \<in> set (findall net_elem ''arc''). 0 < parseInteger (weight_text a) 1)))"
proof (intro conjI)
  show "parseInteger None d = d" by (simp add: parseInteger_def)
  show "py_int (py_strip t) = None \<longrightarrow> parseInteger (Some t) d = d"
    by (simp add: parseInteger_def)
  show "py_int (py_strip t) = Some n \<longrightarrow> parseInteger (Some t) d = n"
    by (simp add: parseInteger_def)
  show "get_attr p ''id'' = Some pid \<and> pid \<notin> fst ` set place_map \<longrightarrow>
      (\<exists>pl. place_of_elem p place_map = Inr pl \<and>
         p_initial_marking pl = parseInteger (initial_marking_text p) 0)"
    by (simp add: place_of_elem_def)
  show "place_of_elem p place_map = Inl e \<longrightarrow> e = PlaceNoId \<or> (\<exists>pid. e = DuplicatePlaceId pid)"
    using place_of_elem_Inl by blast
  show "get_attr a ''id'' = Some aid \<and> aid \<notin> fst ` set arc_map \<and>
    get_attr a ''source'' \<noteq> None \<and> get_attr a ''target'' \<noteq> None \<and>
    (weight_text a = None \<or> (\<exists>t. weight_text a = Some t \<and> py_int (py_strip t) = None)) \<longrightarrow>
      (\<exists>arc. arc_of_elem a arc_map = Inr arc \<and> a_weight arc = 1)"
    by (auto simp: arc_of_elem_def parseInteger_def Let_def)
  show "arc_of_elem a arc_map = Inr arc \<longrightarrow>
      a_weight arc = parseInteger (weight_text a) 1 \<and> 0 < a_weight arc"
    using arc_of_elem_Inr_weight by blast
  show "arc_of_elem a arc_map = Inl (ArcWeightNotPositive aid w) \<longleftrightarrow>
      get_attr a ''id'' = Some aid \<and> aid \<notin> fst ` set arc_map \<and>
      get_attr a ''source'' \<noteq> None \<and> get_attr a ''target'' \<noteq> None \<and>
      (\<exists>t. weight_text a = Some t \<and> py_int (py_strip t) = Some w) \<and> w \<le> 0"
    by (rule arc_of_elem_weight_error)
next
  let ?E = "ArcWeightNotPositive aid w"
  show "parsePNML root r = Inl ?E \<longleftrightarrow>
      (\<exists>net_elem place_map transition_map before x after arc_map.
         find_child (strip_namespace root) ''net'' = Some net_elem \<and>
         collect_place_elems (findall net_elem ''place'') [] = Inr place_map \<and>
         collect_transition_elems (findall net_elem ''transition'') [] = Inr transition_map \<and>
         findall net_elem ''arc'' = before @ x # after \<and>
         collect_arc_elems before [] = Inr arc_map \<and>
         get_attr x ''id'' = Some aid \<and> aid \<notin> fst ` set arc_map \<and>
         get_attr x ''source'' \<noteq> None \<and> get_attr x ''target'' \<noteq> None \<and>
         (\<exists>t. weight_text x = Some t \<and> py_int (py_strip t) = Some w) \<and> w \<le> 0)"
    (is "?L \<longleftrightarrow> ?R")
  proof
    assume ?L
    then have "linked_net root = Inl ?E"
      by (simp add: parsePNML_construction_error construction_error_def)
    from linked_net_Inl_weight [OF this] obtain net_elem place_map transition_map where
      ne: "find_child (strip_namespace root) ''net'' = Some net_elem" and
      ps: "collect_place_elems (findall net_elem ''place'') [] = Inr place_map" and
      ts: "collect_transition_elems (findall net_elem ''transition'') [] = Inr transition_map" and
      err: "collect_arc_elems (findall net_elem ''arc'') [] = Inl ?E"
      by blast
    from err obtain before x after arc_map where
      s: "findall net_elem ''arc'' = before @ x # after" and
      c: "collect_arc_elems before [] = Inr arc_map" and
      f: "arc_of_elem x arc_map = Inl ?E"
      unfolding collect_arc_elems_Inl_iff by blast
    from f have "get_attr x ''id'' = Some aid \<and> aid \<notin> fst ` set arc_map \<and>
         get_attr x ''source'' \<noteq> None \<and> get_attr x ''target'' \<noteq> None \<and>
         (\<exists>t. weight_text x = Some t \<and> py_int (py_strip t) = Some w) \<and> w \<le> 0"
      unfolding arc_of_elem_weight_error .
    with ne ps ts s c show ?R by blast
  next
    assume ?R
    then obtain net_elem place_map transition_map before x after arc_map where
      ne: "find_child (strip_namespace root) ''net'' = Some net_elem" and
      ps: "collect_place_elems (findall net_elem ''place'') [] = Inr place_map" and
      ts: "collect_transition_elems (findall net_elem ''transition'') [] = Inr transition_map" and
      s: "findall net_elem ''arc'' = before @ x # after" and
      c: "collect_arc_elems before [] = Inr arc_map" and
      f: "get_attr x ''id'' = Some aid \<and> aid \<notin> fst ` set arc_map \<and>
         get_attr x ''source'' \<noteq> None \<and> get_attr x ''target'' \<noteq> None \<and>
         (\<exists>t. weight_text x = Some t \<and> py_int (py_strip t) = Some w) \<and> w \<le> 0"
      by blast
    from f have "arc_of_elem x arc_map = Inl ?E"
      unfolding arc_of_elem_weight_error .
    with s c have "collect_arc_elems (findall net_elem ''arc'') [] = Inl ?E"
      unfolding collect_arc_elems_Inl_iff by blast
    with ne ps ts have "linked_net root = Inl ?E"
      by (simp add: linked_net_def)
    then show ?L
      by (simp add: parsePNML_construction_error construction_error_def)
  qed
next
  show "parsePNML root r = Inr net \<longrightarrow>
      (\<exists>net_elem. find_child (strip_namespace root) ''net'' = Some net_elem \<and>
         map (\<lambda>(k, p). (k, p_initial_marking p)) (places net) =
           map (\<lambda>p. (elem_id p, parseInteger (initial_marking_text p) 0))
             (findall net_elem ''place'') \<and>
         map (\<lambda>(k, a). (k, a_weight a)) (arcs net) =
           map (\<lambda>a. (elem_id a, parseInteger (weight_text a) 1)) (findall net_elem ''arc'') \<and>
         (\<forall>a \<in> set (findall net_elem ''arc''). 0 < parseInteger (weight_text a) 1))"
  proof
    assume "parsePNML root r = Inr net"
    then have ln: "linked_net root = Inr net" by (simp add: parsePNML_Inr)
    from linked_net_values [OF ln] obtain net_elem where
      ne: "find_child (strip_namespace root) ''net'' = Some net_elem" and
      v: "map (\<lambda>(k, p). (k, p_initial_marking p)) (places net) =
           map (\<lambda>p. (elem_id p, parseInteger (initial_marking_text p) 0))
             (findall net_elem ''place'')"
         "map (\<lambda>(k, a). (k, a_weight a)) (arcs net) =
           map (\<lambda>a. (elem_id a, parseInteger (weight_text a) 1)) (findall net_elem ''arc'')"
      by blast
    from linked_net_Inr_weights [OF ln] ne
    have "\<forall>a \<in> set (findall net_elem ''arc''). 0 < parseInteger (weight_text a) 1"
      by simp
    with ne v show "\<exists>net_elem. find_child (strip_namespace root) ''net'' = Some net_elem \<and>
         map (\<lambda>(k, p). (k, p_initial_marking p)) (places net) =
           map (\<lambda>p. (elem_id p, parseInteger (initial_marking_text p) 0))
             (findall net_elem ''place'') \<and>
         map (\<lambda>(k, a). (k, a_weight a)) (arcs net) =
           map (\<lambda>a. (elem_id a, parseInteger (weight_text a) 1)) (findall net_elem ''arc'') \<and>
         (\<forall>a \<in> set (findall net_elem ''arc''). 0 < parseInteger (weight_text a) 1)"
      by blast
  qed
qed

text \<open>
  Two files for C8: in the first the marking text of \<open>p2\<close> and the weight text of \<open>a1\<close>
  are no numbers and \<open>a2\<close> has no weight text; in the second the weight text of \<open>a2\<close>
  is \<open>-3\<close> between spaces.
\<close>

definition permissive_doc :: xml where
  "permissive_doc = pnml_doc
     [place_elem ''p1'' ''1'', place_elem ''p2'' ''one'', transition_elem ''t1'',
      weighted_arc_elem ''a1'' ''p1'' ''t1'' ''w'', arc_elem ''a2'' ''t1'' ''p2'']"

definition nonpositive_doc :: xml where
  "nonpositive_doc = pnml_doc
     [place_elem ''p1'' ''1'', place_elem ''p2'' ''one'', transition_elem ''t1'',
      weighted_arc_elem ''a1'' ''p1'' ''t1'' ''w'', weighted_arc_elem ''a2'' ''t1'' ''p2'' '' -3 '']"

theorem numeric_text_is_permissive_witness:
  "py_int (py_strip ''one'') = None \<and> parseInteger (Some ''one'') 0 = 0 \<and>
   py_int (py_strip '' -3 '') = Some (- 3) \<and> parseInteger (Some '' -3 '') 1 = - 3 \<and>
   (\<exists>net. parsePNML permissive_doc True = Inr net \<and>
      map (\<lambda>(k, p). (k, p_initial_marking p)) (places net) = [(''p1'', 1), (''p2'', 0)] \<and>
      map (\<lambda>(k, a). (k, a_weight a)) (arcs net) = [(''a1'', 1), (''a2'', 1)] \<and>
      (\<exists>net_elem. find_child (strip_namespace permissive_doc) ''net'' = Some net_elem \<and>
         map (\<lambda>(k, p). (k, p_initial_marking p)) (places net) =
           map (\<lambda>p. (elem_id p, parseInteger (initial_marking_text p) 0))
             (findall net_elem ''place''))) \<and>
   parsePNML nonpositive_doc True = Inl (ArcWeightNotPositive ''a2'' (- 3)) \<and>
   (\<exists>net_elem before x after.
      find_child (strip_namespace nonpositive_doc) ''net'' = Some net_elem \<and>
      findall net_elem ''arc'' = before @ x # after \<and> get_attr x ''id'' = Some ''a2'' \<and>
      (\<exists>t. weight_text x = Some t \<and> py_int (py_strip t) = Some (- 3)))"
proof -
  have n1: "py_int (py_strip ''one'') = None" by code_simp
  have n2: "py_int (py_strip '' -3 '') = Some (- 3)" by code_simp
  have i1: "parseInteger (Some ''one'') 0 = 0"
    using numeric_text_is_permissive [where d = 0 and t = "''one''",
        THEN conjunct2, THEN conjunct1] n1
    by (rule mp)
  have i2: "parseInteger (Some '' -3 '') 1 = - 3"
    using numeric_text_is_permissive [where d = 1 and t = "'' -3 ''" and n = "- 3",
        THEN conjunct2, THEN conjunct2, THEN conjunct1] n2
    by (rule mp)
  have ok: "case parsePNML permissive_doc True of
      Inl e \<Rightarrow> False
    | Inr net \<Rightarrow>
        map (\<lambda>(k, p). (k, p_initial_marking p)) (places net) = [(''p1'', 1), (''p2'', 0)] \<and>
        map (\<lambda>(k, a). (k, a_weight a)) (arcs net) = [(''a1'', 1), (''a2'', 1)]"
    by code_simp
  then obtain net where net: "parsePNML permissive_doc True = Inr net"
    and v: "map (\<lambda>(k, p). (k, p_initial_marking p)) (places net) = [(''p1'', 1), (''p2'', 0)]"
      "map (\<lambda>(k, a). (k, a_weight a)) (arcs net) = [(''a1'', 1), (''a2'', 1)]"
    by (auto split: sum.split_asm)
  note last = numeric_text_is_permissive [where root = permissive_doc and r = True and net = net,
      THEN conjunct2, THEN conjunct2, THEN conjunct2, THEN conjunct2, THEN conjunct2,
      THEN conjunct2, THEN conjunct2, THEN conjunct2, THEN conjunct2, THEN mp, OF net]
  from last obtain net_elem where
    ne: "find_child (strip_namespace permissive_doc) ''net'' = Some net_elem" and
    pm: "map (\<lambda>(k, p). (k, p_initial_marking p)) (places net) =
           map (\<lambda>p. (elem_id p, parseInteger (initial_marking_text p) 0))
             (findall net_elem ''place'')"
    by (elim exE conjE)
  have a: "\<exists>net. parsePNML permissive_doc True = Inr net \<and>
      map (\<lambda>(k, p). (k, p_initial_marking p)) (places net) = [(''p1'', 1), (''p2'', 0)] \<and>
      map (\<lambda>(k, a). (k, a_weight a)) (arcs net) = [(''a1'', 1), (''a2'', 1)] \<and>
      (\<exists>net_elem. find_child (strip_namespace permissive_doc) ''net'' = Some net_elem \<and>
         map (\<lambda>(k, p). (k, p_initial_marking p)) (places net) =
           map (\<lambda>p. (elem_id p, parseInteger (initial_marking_text p) 0))
             (findall net_elem ''place''))"
    by (rule exI [where x = net], intro conjI, rule net, rule v(1), rule v(2),
        rule exI [where x = net_elem], intro conjI, rule ne, rule pm)
  have bad: "parsePNML nonpositive_doc True = Inl (ArcWeightNotPositive ''a2'' (- 3))"
    by code_simp
  note err = numeric_text_is_permissive [where root = nonpositive_doc and r = True
      and aid = "''a2''" and w = "- 3",
      THEN conjunct2, THEN conjunct2, THEN conjunct2, THEN conjunct2, THEN conjunct2,
      THEN conjunct2, THEN conjunct2, THEN conjunct2, THEN conjunct1, THEN iffD1, OF bad]
  from err obtain net_elem' before x after where
    ne': "find_child (strip_namespace nonpositive_doc) ''net'' = Some net_elem'" and
    sp: "findall net_elem' ''arc'' = before @ x # after" and
    xi: "get_attr x ''id'' = Some ''a2''" and
    xt: "\<exists>t. weight_text x = Some t \<and> py_int (py_strip t) = Some (- 3)"
    by (elim exE conjE) blast
  have b: "\<exists>net_elem before x after.
      find_child (strip_namespace nonpositive_doc) ''net'' = Some net_elem \<and>
      findall net_elem ''arc'' = before @ x # after \<and> get_attr x ''id'' = Some ''a2'' \<and>
      (\<exists>t. weight_text x = Some t \<and> py_int (py_strip t) = Some (- 3))"
    by (rule exI [where x = net_elem'], rule exI [where x = before], rule exI [where x = x],
        rule exI [where x = after], intro conjI, rule ne', rule sp, rule xi, rule xt)
  from n1 i1 n2 i2 a bad b show ?thesis by (intro conjI)
qed

text \<open>
  C6. With \<open>require_1safe\<close> the parser reports the places whose initial marking is
  neither 0 nor 1 exactly when the net was linked and has no isolated node and there is
  such a place: the error then lists all of them with their values, in the order of the
  file, whatever the weights of the arcs are. It reports the arcs of a weight other than 1
  exactly when, moreover, no place has such a marking, and then lists all of those arcs.
  It returns the net exactly when the parser without \<open>require_1safe\<close> returns it and
  every marking is 0 or 1 and every weight is 1. Without \<open>require_1safe\<close> neither error
  is raised, and every other error is the same in both modes.
\<close>

theorem one_safe_checks_in_sequence:
  "(parsePNML root True = Inl (NonBinaryMarkings bs) \<longleftrightarrow>
      (\<exists>net net_elem. linked_net root = Inr net \<and>
         isolated_nodes (places net) (transitions net) = [] \<and>
         find_child (strip_namespace root) ''net'' = Some net_elem \<and>
         bs = bad_marking_texts net_elem \<and>
         bs \<noteq> [])) \<and>
   (parsePNML root True = Inl (ArcWeightsNotOne hs) \<longleftrightarrow>
      (\<exists>net net_elem. linked_net root = Inr net \<and>
         isolated_nodes (places net) (transitions net) = [] \<and>
         find_child (strip_namespace root) ''net'' = Some net_elem \<and>
         bad_marking_texts net_elem = [] \<and>
         hs = heavy_weight_texts net_elem \<and>
         hs \<noteq> [])) \<and>
   (parsePNML root True = Inr net \<longleftrightarrow>
      parsePNML root False = Inr net \<and>
      (\<forall>(k, p) \<in> set (places net). p_initial_marking p = 0 \<or> p_initial_marking p = 1) \<and>
      (\<forall>(k, a) \<in> set (arcs net). a_weight a = 1)) \<and>
   parsePNML root False \<noteq> Inl (NonBinaryMarkings bs) \<and>
   parsePNML root False \<noteq> Inl (ArcWeightsNotOne hs) \<and>
   (parsePNML root False = Inl e \<longrightarrow> parsePNML root True = Inl e)"
proof (intro conjI)
  show "parsePNML root True = Inl (NonBinaryMarkings bs) \<longleftrightarrow>
      (\<exists>net net_elem. linked_net root = Inr net \<and>
         isolated_nodes (places net) (transitions net) = [] \<and>
         find_child (strip_namespace root) ''net'' = Some net_elem \<and>
         bs = bad_marking_texts net_elem \<and>
         bs \<noteq> [])"
    (is "?L \<longleftrightarrow> ?R")
  proof
    assume ?L
    then obtain net where ln: "linked_net root = Inr net"
      and iso: "isolated_nodes (places net) (transitions net) = []"
      and bs: "bs = bad_markings (places net)" "bs \<noteq> []"
      unfolding parsePNML_nonbinary_iff by blast
    from linked_net_checks [OF ln] obtain net_elem where
      "find_child (strip_namespace root) ''net'' = Some net_elem"
      "bad_markings (places net) = bad_marking_texts net_elem"
      by blast
    with ln iso bs show ?R by blast
  next
    assume ?R
    then obtain net net_elem where ln: "linked_net root = Inr net"
      and iso: "isolated_nodes (places net) (transitions net) = []"
      and ne: "find_child (strip_namespace root) ''net'' = Some net_elem"
      and bs: "bs = bad_marking_texts net_elem" "bs \<noteq> []"
      by blast
    from linked_net_checks [OF ln] ne
    have "bad_markings (places net) = bad_marking_texts net_elem" by auto
    with ln iso bs show ?L unfolding parsePNML_nonbinary_iff by auto
  qed
next
  show "parsePNML root True = Inl (ArcWeightsNotOne hs) \<longleftrightarrow>
      (\<exists>net net_elem. linked_net root = Inr net \<and>
         isolated_nodes (places net) (transitions net) = [] \<and>
         find_child (strip_namespace root) ''net'' = Some net_elem \<and>
         bad_marking_texts net_elem = [] \<and>
         hs = heavy_weight_texts net_elem \<and>
         hs \<noteq> [])"
    (is "?L \<longleftrightarrow> ?R")
  proof
    assume ?L
    then obtain net where ln: "linked_net root = Inr net"
      and iso: "isolated_nodes (places net) (transitions net) = []"
      and bm: "bad_markings (places net) = []"
      and hs: "hs = heavy_arcs (arcs net)" "hs \<noteq> []"
      unfolding parsePNML_heavy_iff by blast
    from linked_net_checks [OF ln] obtain net_elem where
      "find_child (strip_namespace root) ''net'' = Some net_elem"
      "bad_markings (places net) = bad_marking_texts net_elem"
      "heavy_arcs (arcs net) = heavy_weight_texts net_elem"
      by blast
    with ln iso bm hs show ?R by (metis (no_types))
  next
    assume ?R
    then obtain net net_elem where ln: "linked_net root = Inr net"
      and iso: "isolated_nodes (places net) (transitions net) = []"
      and ne: "find_child (strip_namespace root) ''net'' = Some net_elem"
      and bm: "bad_marking_texts net_elem = []"
      and hs: "hs = heavy_weight_texts net_elem" "hs \<noteq> []"
      by blast
    from linked_net_checks [OF ln] ne
    have "bad_markings (places net) = bad_marking_texts net_elem"
      "heavy_arcs (arcs net) = heavy_weight_texts net_elem" by auto
    with ln iso bm hs show ?L unfolding parsePNML_heavy_iff by auto
  qed
next
  show "parsePNML root True = Inr net \<longleftrightarrow>
      parsePNML root False = Inr net \<and>
      (\<forall>(k, p) \<in> set (places net). p_initial_marking p = 0 \<or> p_initial_marking p = 1) \<and>
      (\<forall>(k, a) \<in> set (arcs net). a_weight a = 1)"
    unfolding parsePNML_Inr_iff bad_markings_Nil heavy_arcs_Nil by auto
  show "parsePNML root False \<noteq> Inl (NonBinaryMarkings bs)"
    unfolding parsePNML_nonbinary_iff by simp
  show "parsePNML root False \<noteq> Inl (ArcWeightsNotOne hs)"
    unfolding parsePNML_heavy_iff by simp
  show "parsePNML root False = Inl e \<longrightarrow> parsePNML root True = Inl e"
    by (cases "linked_net root") (auto simp: parsePNML_def split: if_split_asm)
qed

text \<open>
  C7. The parser fails on isolated nodes exactly when the net was linked and some place or
  transition of it has an empty incoming and an empty outgoing list; the one error names
  every such node, the places before the transitions, each in the order of its dictionary.
\<close>

theorem isolated_nodes_reported_together:
  "(parsePNML root r = Inl (IsolatedNodes ns) \<longleftrightarrow>
      (\<exists>net. linked_net root = Inr net \<and> ns \<noteq> [] \<and>
         ns = map (\<lambda>(pid, p). (''place'', pid))
                (filter (\<lambda>(pid, p). p_incoming p = [] \<and> p_outgoing p = []) (places net)) @
              map (\<lambda>(tid, t). (''transition'', tid))
                (filter (\<lambda>(tid, t). t_incoming t = [] \<and> t_outgoing t = [])
                   (transitions net)))) \<and>
   (linked_net root = Inr net \<longrightarrow>
      ((\<exists>ns. parsePNML root r = Inl (IsolatedNodes ns)) \<longleftrightarrow>
       (\<exists>(pid, p) \<in> set (places net). p_incoming p = [] \<and> p_outgoing p = []) \<or>
       (\<exists>(tid, t) \<in> set (transitions net). t_incoming t = [] \<and> t_outgoing t = []))) \<and>
   (linked_net root = Inr net \<and> parsePNML root r = Inl (IsolatedNodes ns) \<longrightarrow>
      set ns =
        {(''place'', pid) | pid p. (pid, p) \<in> set (places net) \<and>
           p_incoming p = [] \<and> p_outgoing p = []} \<union>
        {(''transition'', tid) | tid t. (tid, t) \<in> set (transitions net) \<and>
           t_incoming t = [] \<and> t_outgoing t = []})"
proof (intro conjI impI)
  show "parsePNML root r = Inl (IsolatedNodes ns) \<longleftrightarrow>
      (\<exists>net. linked_net root = Inr net \<and> ns \<noteq> [] \<and>
         ns = map (\<lambda>(pid, p). (''place'', pid))
                (filter (\<lambda>(pid, p). p_incoming p = [] \<and> p_outgoing p = []) (places net)) @
              map (\<lambda>(tid, t). (''transition'', tid))
                (filter (\<lambda>(tid, t). t_incoming t = [] \<and> t_outgoing t = [])
                   (transitions net)))"
    unfolding parsePNML_isolated_iff isolated_nodes_def by blast
next
  assume ln: "linked_net root = Inr net"
  have "(\<exists>ns. parsePNML root r = Inl (IsolatedNodes ns)) \<longleftrightarrow>
      isolated_nodes (places net) (transitions net) \<noteq> []"
    unfolding parsePNML_isolated_iff using ln by auto
  also have "\<dots> \<longleftrightarrow>
       (\<exists>(pid, p) \<in> set (places net). p_incoming p = [] \<and> p_outgoing p = []) \<or>
       (\<exists>(tid, t) \<in> set (transitions net). t_incoming t = [] \<and> t_outgoing t = [])"
    by (auto simp: isolated_nodes_def filter_empty_conv)
  finally show "(\<exists>ns. parsePNML root r = Inl (IsolatedNodes ns)) \<longleftrightarrow>
       (\<exists>(pid, p) \<in> set (places net). p_incoming p = [] \<and> p_outgoing p = []) \<or>
       (\<exists>(tid, t) \<in> set (transitions net). t_incoming t = [] \<and> t_outgoing t = [])" .
next
  assume "linked_net root = Inr net \<and> parsePNML root r = Inl (IsolatedNodes ns)"
  then have "ns = isolated_nodes (places net) (transitions net)"
    unfolding parsePNML_isolated_iff by auto
  then show "set ns =
        {(''place'', pid) | pid p. (pid, p) \<in> set (places net) \<and>
           p_incoming p = [] \<and> p_outgoing p = []} \<union>
        {(''transition'', tid) | tid t. (tid, t) \<in> set (transitions net) \<and>
           t_incoming t = [] \<and> t_outgoing t = []}"
    by (auto simp: isolated_nodes_def)
qed

text \<open>
  C5, as the code has it. In every net that the parser returns no transition id is a place
  id, and each dictionary has every key once. A file in which one id names a place and a
  transition is never accepted; the parser has no check of its own for it: where the net
  gets linked, the arcs at the shared id go to the place, the transition keeps its empty
  lists, and the error is the one of the isolated nodes, which names the transition.
\<close>

theorem place_and_transition_ids_disjoint:
  "(parsePNML root r = Inr net \<longrightarrow>
      fst ` set (places net) \<inter> fst ` set (transitions net) = {} \<and>
      distinct (map fst (places net)) \<and> distinct (map fst (transitions net))) \<and>
   (find_child (strip_namespace root) ''net'' = Some net_elem \<and>
    p \<in> set (findall net_elem ''place'') \<and> t \<in> set (findall net_elem ''transition'') \<and>
    get_attr p ''id'' = Some i \<and> get_attr t ''id'' = Some i \<longrightarrow>
      (\<exists>e. parsePNML root r = Inl e) \<and>
      (\<forall>net'. linked_net root = Inr net' \<longrightarrow>
         (\<exists>ns. parsePNML root r = Inl (IsolatedNodes ns) \<and> (''transition'', i) \<in> set ns)))"
proof (intro conjI impI)
  assume ok: "parsePNML root r = Inr net"
  show "fst ` set (places net) \<inter> fst ` set (transitions net) = {}"
    using ok by (rule parsed_ids_disjoint)
  from ok have "linked_net root = Inr net" by (simp add: parsePNML_Inr)
  from linked_net_distinct [OF this]
  show "distinct (map fst (places net))" "distinct (map fst (transitions net))"
    by simp_all
next
  assume h: "find_child (strip_namespace root) ''net'' = Some net_elem \<and>
    p \<in> set (findall net_elem ''place'') \<and> t \<in> set (findall net_elem ''transition'') \<and>
    get_attr p ''id'' = Some i \<and> get_attr t ''id'' = Some i"
  have shared: "i \<in> fst ` set (places net') \<and> i \<in> fst ` set (transitions net')"
    if ln: "linked_net root = Inr net'" for net'
  proof -
    from linked_net_values [OF ln] h have
      pk: "map fst (places net') = map elem_id (findall net_elem ''place'')" and
      tk: "map fst (transitions net') = map elem_id (findall net_elem ''transition'')"
      by auto
    from h have ei: "elem_id p = i" "elem_id t = i" by (simp_all add: elem_id_def)
    from h have "elem_id p \<in> elem_id ` set (findall net_elem ''place'')"
      "elem_id t \<in> elem_id ` set (findall net_elem ''transition'')"
      by (simp_all only: imageI)
    then have "i \<in> set (map elem_id (findall net_elem ''place''))"
      "i \<in> set (map elem_id (findall net_elem ''transition''))"
      unfolding ei by simp_all
    then have "i \<in> set (map fst (places net'))" "i \<in> set (map fst (transitions net'))"
      unfolding pk tk by simp_all
    then show ?thesis by simp
  qed
  have iso: "\<exists>ns. parsePNML root r = Inl (IsolatedNodes ns) \<and> (''transition'', i) \<in> set ns"
    if ln: "linked_net root = Inr net'" for net'
  proof -
    from shared [OF ln] obtain tr where k: "i \<in> fst ` set (places net')"
      and tr: "(i, tr) \<in> set (transitions net')"
      by force
    from shared_id_transition_isolated [OF ln tr k] tr
    have m: "(''transition'', i) \<in> set (isolated_nodes (places net') (transitions net'))"
      by (auto intro: isolated_nodes_transition)
    then have "isolated_nodes (places net') (transitions net') \<noteq> []" by auto
    with ln have "parsePNML root r =
        Inl (IsolatedNodes (isolated_nodes (places net') (transitions net')))"
      by (simp add: parsePNML_def)
    with m show ?thesis by blast
  qed
  show "\<exists>e. parsePNML root r = Inl e"
  proof (cases "linked_net root")
    case (Inl e)
    then show ?thesis by (simp add: parsePNML_def)
  next
    case (Inr net')
    from iso [OF Inr] show ?thesis by blast
  qed
  show "\<forall>net'. linked_net root = Inr net' \<longrightarrow>
         (\<exists>ns. parsePNML root r = Inl (IsolatedNodes ns) \<and> (''transition'', i) \<in> set ns)"
    using iso by blast
qed

text \<open>
  Two files for C6: in the first both places have a marking outside 0 and 1 and the arc
  \<open>a1\<close> has weight 3; in the second the markings are fine and both arcs are heavy.
\<close>

definition nonbinary_doc :: xml where
  "nonbinary_doc = pnml_doc
     [place_elem ''p1'' ''2'', place_elem ''p2'' ''-1'', transition_elem ''t1'',
      weighted_arc_elem ''a1'' ''p1'' ''t1'' ''3'', arc_elem ''a2'' ''t1'' ''p2'']"

definition heavy_doc :: xml where
  "heavy_doc = pnml_doc
     [place_elem ''p1'' ''1'', place_elem ''p2'' ''0'', transition_elem ''t1'',
      weighted_arc_elem ''a1'' ''p1'' ''t1'' ''3'', weighted_arc_elem ''a2'' ''t1'' ''p2'' ''2'']"

theorem one_safe_checks_in_sequence_witness:
  "parsePNML nonbinary_doc True = Inl (NonBinaryMarkings [(''p1'', 2), (''p2'', - 1)]) \<and>
   (\<exists>net net_elem. linked_net nonbinary_doc = Inr net \<and>
      isolated_nodes (places net) (transitions net) = [] \<and>
      find_child (strip_namespace nonbinary_doc) ''net'' = Some net_elem \<and>
      [(''p1'', 2), (''p2'', - 1)] = bad_marking_texts net_elem) \<and>
   parsePNML heavy_doc True = Inl (ArcWeightsNotOne [''a1'', ''a2'']) \<and>
   (\<exists>net net_elem. linked_net heavy_doc = Inr net \<and>
      isolated_nodes (places net) (transitions net) = [] \<and>
      find_child (strip_namespace heavy_doc) ''net'' = Some net_elem \<and>
      bad_marking_texts net_elem = [] \<and> [''a1'', ''a2''] = heavy_weight_texts net_elem)"
proof -
  have e1: "parsePNML nonbinary_doc True = Inl (NonBinaryMarkings [(''p1'', 2), (''p2'', - 1)])"
    by code_simp
  have e2: "parsePNML heavy_doc True = Inl (ArcWeightsNotOne [''a1'', ''a2''])"
    by code_simp
  note c1 = one_safe_checks_in_sequence [where root = nonbinary_doc
      and bs = "[(''p1'', 2), (''p2'', - 1)]", THEN conjunct1, THEN iffD1, OF e1]
  note c2 = one_safe_checks_in_sequence [where root = heavy_doc
      and hs = "[''a1'', ''a2'']", THEN conjunct2, THEN conjunct1, THEN iffD1, OF e2]
  from c1 obtain net net_elem where
    a: "linked_net nonbinary_doc = Inr net"
      "isolated_nodes (places net) (transitions net) = []"
      "find_child (strip_namespace nonbinary_doc) ''net'' = Some net_elem"
      "[(''p1'', 2), (''p2'', - 1)] = bad_marking_texts net_elem"
    by (elim exE conjE)
  from c2 obtain net' net_elem' where
    b: "linked_net heavy_doc = Inr net'"
      "isolated_nodes (places net') (transitions net') = []"
      "find_child (strip_namespace heavy_doc) ''net'' = Some net_elem'"
      "bad_marking_texts net_elem' = []"
      "[''a1'', ''a2''] = heavy_weight_texts net_elem'"
    by (elim exE conjE)
  have a': "\<exists>net net_elem. linked_net nonbinary_doc = Inr net \<and>
      isolated_nodes (places net) (transitions net) = [] \<and>
      find_child (strip_namespace nonbinary_doc) ''net'' = Some net_elem \<and>
      [(''p1'', 2), (''p2'', - 1)] = bad_marking_texts net_elem"
    by (rule exI [where x = net], rule exI [where x = net_elem], intro conjI, fact+)
  have b': "\<exists>net net_elem. linked_net heavy_doc = Inr net \<and>
      isolated_nodes (places net) (transitions net) = [] \<and>
      find_child (strip_namespace heavy_doc) ''net'' = Some net_elem \<and>
      bad_marking_texts net_elem = [] \<and> [''a1'', ''a2''] = heavy_weight_texts net_elem"
    by (rule exI [where x = net'], rule exI [where x = net_elem'], intro conjI, fact+)
  from e1 a' e2 b' show ?thesis by (intro conjI)
qed

text \<open>
  A file for C7, as in scenario B of the specification: the place \<open>p0\<close> and the
  transition \<open>t9\<close> have no arc.
\<close>

definition isolated_doc :: xml where
  "isolated_doc = pnml_doc
     [place_elem ''p0'' ''0'', place_elem ''p1'' ''1'', transition_elem ''t1'',
      transition_elem ''t9'', arc_elem ''a1'' ''p1'' ''t1'', arc_elem ''a2'' ''t1'' ''p1'']"

theorem isolated_nodes_reported_together_witness:
  "parsePNML isolated_doc True = Inl (IsolatedNodes [(''place'', ''p0''), (''transition'', ''t9'')]) \<and>
   (\<exists>net. linked_net isolated_doc = Inr net \<and>
      [(''place'', ''p0''), (''transition'', ''t9'')] =
        map (\<lambda>(pid, p). (''place'', pid))
          (filter (\<lambda>(pid, p). p_incoming p = [] \<and> p_outgoing p = []) (places net)) @
        map (\<lambda>(tid, t). (''transition'', tid))
          (filter (\<lambda>(tid, t). t_incoming t = [] \<and> t_outgoing t = []) (transitions net)))"
proof -
  have e: "parsePNML isolated_doc True =
      Inl (IsolatedNodes [(''place'', ''p0''), (''transition'', ''t9'')])"
    by code_simp
  note c = isolated_nodes_reported_together [where root = isolated_doc and r = True
      and ns = "[(''place'', ''p0''), (''transition'', ''t9'')]",
      THEN conjunct1, THEN iffD1, OF e]
  from c obtain net where
    a: "linked_net isolated_doc = Inr net"
      "[(''place'', ''p0''), (''transition'', ''t9'')] =
        map (\<lambda>(pid, p). (''place'', pid))
          (filter (\<lambda>(pid, p). p_incoming p = [] \<and> p_outgoing p = []) (places net)) @
        map (\<lambda>(tid, t). (''transition'', tid))
          (filter (\<lambda>(tid, t). t_incoming t = [] \<and> t_outgoing t = []) (transitions net))"
    by (elim exE conjE)
  have "\<exists>net. linked_net isolated_doc = Inr net \<and>
      [(''place'', ''p0''), (''transition'', ''t9'')] =
        map (\<lambda>(pid, p). (''place'', pid))
          (filter (\<lambda>(pid, p). p_incoming p = [] \<and> p_outgoing p = []) (places net)) @
        map (\<lambda>(tid, t). (''transition'', tid))
          (filter (\<lambda>(tid, t). t_incoming t = [] \<and> t_outgoing t = []) (transitions net))"
    by (rule exI [where x = net], intro conjI, fact+)
  with e show ?thesis by (intro conjI)
qed

text \<open>
  A file for C5: the id \<open>x\<close> names a place and a transition, and the arc \<open>a1\<close> goes
  from \<open>x\<close> to \<open>x\<close>. The parser rejects it with the error of the isolated nodes, not
  with a duplicate id.
\<close>

definition shared_id_net :: xml where
  "shared_id_net = Element ''net'' [(''id'', ''n1'')] None
     [place_elem ''x'' ''1'', transition_elem ''x'', arc_elem ''a1'' ''x'' ''x'']"

definition shared_id_doc :: xml where
  "shared_id_doc = Element ''pnml'' [] None [shared_id_net]"

theorem shared_id_is_no_duplicate_counterexample:
  "get_attr (place_elem ''x'' ''1'') ''id'' = Some ''x'' \<and>
   get_attr (transition_elem ''x'') ''id'' = Some ''x'' \<and>
   parsePNML shared_id_doc True = Inl (IsolatedNodes [(''transition'', ''x'')]) \<and>
   parsePNML shared_id_doc True \<noteq> Inl (DuplicatePlaceId ''x'') \<and>
   parsePNML shared_id_doc True \<noteq> Inl (DuplicateTransitionId ''x'')"
proof -
  have e: "parsePNML shared_id_doc True = Inl (IsolatedNodes [(''transition'', ''x'')])"
    by code_simp
  have "get_attr (place_elem ''x'' ''1'') ''id'' = Some ''x''"
    "get_attr (transition_elem ''x'') ''id'' = Some ''x''"
    by (simp_all add: get_attr_def place_elem_def transition_elem_def)
  with e show ?thesis by simp
qed

theorem place_and_transition_ids_disjoint_witness:
  "(\<exists>net. parsePNML permissive_doc True = Inr net \<and>
      fst ` set (places net) \<inter> fst ` set (transitions net) = {}) \<and>
   find_child (strip_namespace shared_id_doc) ''net'' = Some shared_id_net \<and>
   place_elem ''x'' ''1'' \<in> set (findall shared_id_net ''place'') \<and>
   transition_elem ''x'' \<in> set (findall shared_id_net ''transition'') \<and>
   get_attr (place_elem ''x'' ''1'') ''id'' = Some ''x'' \<and>
   get_attr (transition_elem ''x'') ''id'' = Some ''x'' \<and>
   (\<exists>e. parsePNML shared_id_doc True = Inl e)"
proof -
  have ok: "case parsePNML permissive_doc True of Inl e \<Rightarrow> False | Inr net \<Rightarrow> True"
    by code_simp
  then obtain net where net: "parsePNML permissive_doc True = Inr net"
    by (auto split: sum.split_asm)
  note d = place_and_transition_ids_disjoint [where root = permissive_doc and r = True
      and net = net, THEN conjunct1, THEN mp, OF net, THEN conjunct1]
  have a: "\<exists>net. parsePNML permissive_doc True = Inr net \<and>
      fst ` set (places net) \<inter> fst ` set (transitions net) = {}"
    by (rule exI [where x = net], intro conjI, rule net, rule d)
  have f: "find_child (strip_namespace shared_id_doc) ''net'' = Some shared_id_net"
    by (simp add: shared_id_doc_def shared_id_net_def find_child_def place_elem_def
        transition_elem_def arc_elem_def text_elem_def)
  have p: "place_elem ''x'' ''1'' \<in> set (findall shared_id_net ''place'')"
    by (simp add: shared_id_net_def findall_def place_elem_def transition_elem_def
        arc_elem_def)
  have t: "transition_elem ''x'' \<in> set (findall shared_id_net ''transition'')"
    by (simp add: shared_id_net_def findall_def place_elem_def transition_elem_def
        arc_elem_def)
  have pi: "get_attr (place_elem ''x'' ''1'') ''id'' = Some ''x''"
    by (simp add: get_attr_def place_elem_def)
  have ti: "get_attr (transition_elem ''x'') ''id'' = Some ''x''"
    by (simp add: get_attr_def transition_elem_def)
  from f p t pi ti have h: "find_child (strip_namespace shared_id_doc) ''net'' = Some shared_id_net \<and>
    place_elem ''x'' ''1'' \<in> set (findall shared_id_net ''place'') \<and>
    transition_elem ''x'' \<in> set (findall shared_id_net ''transition'') \<and>
    get_attr (place_elem ''x'' ''1'') ''id'' = Some ''x'' \<and>
    get_attr (transition_elem ''x'') ''id'' = Some ''x''"
    by (intro conjI)
  note r = place_and_transition_ids_disjoint [where root = shared_id_doc and r = True
      and net_elem = shared_id_net and p = "place_elem ''x'' ''1''"
      and t = "transition_elem ''x''" and i = "''x''",
      THEN conjunct2, THEN mp, OF h, THEN conjunct1]
  from a f p t pi ti r show ?thesis by (intro conjI)
qed

end
